theory Spec2Isabelle
  imports Main
begin

section \<open>Source buffer and pointers\<close>

text \<open>
  The program works on one flat byte buffer (\<^verbatim>\<open>const char* start\<close>).  The buffer is a
  \<^typ>\<open>string\<close>, a pointer into it is its offset from \<^verbatim>\<open>start\<close>.  A read outside the
  buffer is undefined behaviour in the source; here it is the error \<open>OutOfBounds\<close>.
  Signed \<^verbatim>\<open>int\<close> arithmetic that would leave the 32-bit range is the error \<open>IntOverflow\<close>.
\<close>

record Position =
  line :: int
  column :: int

datatype error =
    OutOfBounds
  | IntOverflow
  | UnexpectedCharacter Position char
  | ExpectedLParen Position
  | ExpectedOperator Position
  | ExpectedRParen Position

definition INT_MAX :: int where
  "INT_MAX = 2147483647"

definition incr :: "int \<Rightarrow> error + int" where
  \<comment> \<open>\<^verbatim>\<open>x++\<close> on a C++ \<^verbatim>\<open>int\<close>\<close>
  "incr x = (if x < INT_MAX then Inr (x + 1) else Inl IntOverflow)"

definition to_int32 :: "int \<Rightarrow> int" where
  \<comment> \<open>narrowing of a pointer difference to \<^verbatim>\<open>int\<close>\<close>
  "to_int32 x = (x + 2147483648) mod 4294967296 - 2147483648"

definition deref :: "string \<Rightarrow> nat \<Rightarrow> char option" where
  "deref src ptr = (if ptr < length src then Some (src ! ptr) else None)"

definition deref_prev :: "string \<Rightarrow> nat \<Rightarrow> char option" where
  \<comment> \<open>\<^verbatim>\<open>*(ptr - 1)\<close>: one byte before the buffer when \<^verbatim>\<open>ptr == start\<close>\<close>
  "deref_prev src ptr = (if ptr = 0 then None else deref src (ptr - 1))"

definition read_file :: "string \<Rightarrow> string" where
  \<comment> \<open>a \<^verbatim>\<open>std::string\<close> of \<^verbatim>\<open>filesize + 1\<close> bytes: the file, then one NUL\<close>
  "read_file contents = contents @ [CHR 0x00]"

definition c_str :: "string \<Rightarrow> string" where
  \<comment> \<open>the bytes readable through \<^verbatim>\<open>c_str()\<close>: the string and its terminator\<close>
  "c_str s = s @ [CHR 0x00]"

section \<open>Character classes\<close>

definition is_whitespace :: "char \<Rightarrow> bool" where
  "is_whitespace c \<longleftrightarrow>
     c = CHR '' '' \<or> c = CHR 0x0A \<or> c = CHR 0x09 \<or> c = CHR 0x0B \<or> c = CHR 0x0C"

section \<open>Position tracker\<close>

function position_loop :: "string \<Rightarrow> nat \<Rightarrow> nat \<Rightarrow> Position \<Rightarrow> error + Position" where
  "position_loop src ptr end coord =
     (if ptr \<noteq> end then
        (case deref src (ptr + 1) of
           None \<Rightarrow> Inl OutOfBounds
         | Some c \<Rightarrow>
             if c = CHR 0x0A then
               (case incr (line coord) of
                  Inl e \<Rightarrow> Inl e
                | Inr l \<Rightarrow> position_loop src (ptr + 1) end (coord\<lparr>column := 1, line := l\<rparr>))
             else
               (case incr (column coord) of
                  Inl e \<Rightarrow> Inl e
                | Inr k \<Rightarrow> position_loop src (ptr + 1) end (coord\<lparr>column := k\<rparr>)))
      else Inr coord)"
  by pat_completeness auto

termination
  by (relation "measure (\<lambda>(src, ptr, end, coord). length src - ptr)")
     (auto simp: deref_def split: if_splits)

declare position_loop.simps [simp del]

definition position :: "string \<Rightarrow> nat \<Rightarrow> nat \<Rightarrow> error + Position" where
  "position src ptr end = position_loop src ptr end \<lparr>line = 1, column = 1\<rparr>"

section \<open>Tokenizer\<close>

record View =
  vbegin :: nat
  vlength :: int

datatype token_type =
    TOKEN_NONE | TOKEN_EOF | TOKEN_LPAREN | TOKEN_RPAREN | TOKEN_STRING | TOKEN_IDENTIFIER

record Token =
  view :: View
  type :: token_type

function string_loop :: "string \<Rightarrow> char \<Rightarrow> nat \<Rightarrow> error + nat" where
  \<comment> \<open>\<^verbatim>\<open>do { ++ptr; } while (*ptr != delim and *ptr);\<close>\<close>
  "string_loop src delim ptr =
     (case deref src (ptr + 1) of
        None \<Rightarrow> Inl OutOfBounds
      | Some c \<Rightarrow> if c \<noteq> delim \<and> c \<noteq> CHR 0x00 then string_loop src delim (ptr + 1)
                  else Inr (ptr + 1))"
  by pat_completeness auto

termination
  by (relation "measure (\<lambda>(src, delim, ptr). length src - ptr)")
     (auto simp: deref_def split: if_splits)

function identifier_loop :: "string \<Rightarrow> nat \<Rightarrow> error + nat" where
  \<comment> \<open>\<^verbatim>\<open>do { ++ptr; } while (not is_whitespace(*ptr) and not in_group(*ptr, '(', ')'));\<close>\<close>
  "identifier_loop src ptr =
     (case deref src (ptr + 1) of
        None \<Rightarrow> Inl OutOfBounds
      | Some c \<Rightarrow> if \<not> is_whitespace c \<and> \<not> (c = CHR ''('' \<or> c = CHR '')'')
                  then identifier_loop src (ptr + 1)
                  else Inr (ptr + 1))"
  by pat_completeness auto

termination
  by (relation "measure (\<lambda>(src, ptr). length src - ptr)")
     (auto simp: deref_def split: if_splits)

function whitespace_loop :: "string \<Rightarrow> nat \<Rightarrow> error + nat" where
  \<comment> \<open>\<^verbatim>\<open>do { ++ptr; } while (is_whitespace(*ptr));\<close>\<close>
  "whitespace_loop src ptr =
     (case deref src (ptr + 1) of
        None \<Rightarrow> Inl OutOfBounds
      | Some c \<Rightarrow> if is_whitespace c then whitespace_loop src (ptr + 1) else Inr (ptr + 1))"
  by pat_completeness auto

termination
  by (relation "measure (\<lambda>(src, ptr). length src - ptr)")
     (auto simp: deref_def split: if_splits)

declare string_loop.simps [simp del]

declare identifier_loop.simps [simp del]

declare whitespace_loop.simps [simp del]

lemma whitespace_loop_advances:
  "whitespace_loop src ptr = Inr p \<Longrightarrow> ptr < p \<and> p < length src"
proof (induction src ptr rule: whitespace_loop.induct)
  case (1 src ptr)
  from "1.prems" show ?case
    by (subst (asm) whitespace_loop.simps)
       (auto simp: deref_def split: if_splits dest: "1.IH" [rotated 1])
qed

definition is_string_start :: "string \<Rightarrow> nat \<Rightarrow> char \<Rightarrow> error + bool" where
  \<comment> \<open>\<^verbatim>\<open>(*ptr == '"' or *ptr == '\'') and *(ptr - 1) != '\\'\<close>, the second read only
      when the first test holds\<close>
  "is_string_start src ptr c =
     (if c = CHR 0x22 \<or> c = CHR 0x27 then
        (case deref_prev src ptr of
           None \<Rightarrow> Inl OutOfBounds
         | Some b \<Rightarrow> Inr (b \<noteq> CHR 0x5C))
      else Inr False)"

function next_token :: "string \<Rightarrow> nat \<Rightarrow> error + (Token \<times> nat)" where
  "next_token src ptr =
     (case deref src ptr of
        None \<Rightarrow> Inl OutOfBounds
      | Some c \<Rightarrow>
          if c = CHR 0x00 then
            Inr (\<lparr>view = \<lparr>vbegin = ptr, vlength = 1\<rparr>, type = TOKEN_EOF\<rparr>, ptr)
          else if c = CHR ''('' then
            Inr (\<lparr>view = \<lparr>vbegin = ptr, vlength = 1\<rparr>, type = TOKEN_LPAREN\<rparr>, ptr + 1)
          else if c = CHR '')'' then
            Inr (\<lparr>view = \<lparr>vbegin = ptr, vlength = 1\<rparr>, type = TOKEN_RPAREN\<rparr>, ptr + 1)
          else
            (case is_string_start src ptr c of
               Inl e \<Rightarrow> Inl e
             | Inr True \<Rightarrow>
                 (case string_loop src c ptr of
                    Inl e \<Rightarrow> Inl e
                  | Inr q \<Rightarrow>
                      Inr (\<lparr>view = \<lparr>vbegin = ptr + 1,
                                     vlength = to_int32 (int (q + 1) - int (ptr + 1) - 1)\<rparr>,
                            type = TOKEN_STRING\<rparr>, q + 1))
             | Inr False \<Rightarrow>
                 if \<not> is_whitespace c then
                   (let vptr = (if c = CHR 0x5C then ptr + 1 else ptr) in
                    case identifier_loop src ptr of
                      Inl e \<Rightarrow> Inl e
                    | Inr q \<Rightarrow>
                        Inr (\<lparr>view = \<lparr>vbegin = vptr, vlength = to_int32 (int q - int vptr)\<rparr>,
                              type = TOKEN_IDENTIFIER\<rparr>, q))
                 else if is_whitespace c then
                   (case whitespace_loop src ptr of
                      Inl e \<Rightarrow> Inl e
                    | Inr q \<Rightarrow> next_token src q)
                 else
                   (case position src 0 ptr of
                      Inl e \<Rightarrow> Inl e
                    | Inr pos \<Rightarrow> Inl (UnexpectedCharacter pos c))))"
  by pat_completeness auto

termination
  by (relation "measure (\<lambda>(src, ptr). length src - ptr)")
     (auto dest: whitespace_loop_advances)

declare next_token.simps [simp del]

section \<open>Lexer\<close>

record Lexer =
  str :: nat
  lookahead :: Token

definition peek :: "Lexer \<Rightarrow> Token" where
  "peek lexer = lookahead lexer"

definition advance :: "string \<Rightarrow> Lexer \<Rightarrow> error + (Token \<times> Lexer)" where
  "advance src lexer =
     (case next_token src (str lexer) of
        Inl e \<Rightarrow> Inl e
      | Inr (tok, p) \<Rightarrow> Inr (peek lexer, \<lparr>str = p, lookahead = tok\<rparr>))"

definition new_Lexer :: "string \<Rightarrow> error + Lexer" where
  \<comment> \<open>the constructor: \<^verbatim>\<open>str\<close> is the start of the buffer, and its \<^verbatim>\<open>advance()\<close>
      replaces the default-constructed lookahead, which is dropped\<close>
  "new_Lexer src =
     (case next_token src 0 of
        Inl e \<Rightarrow> Inl e
      | Inr (tok, p) \<Rightarrow> Inr \<lparr>str = p, lookahead = tok\<rparr>)"

definition error_at :: "string \<Rightarrow> Lexer \<Rightarrow> (Position \<Rightarrow> error) \<Rightarrow> error" where
  \<comment> \<open>\<^verbatim>\<open>error(lex.position(), ...)\<close>\<close>
  "error_at src lexer mk = (case position src 0 (str lexer) of Inl e \<Rightarrow> e | Inr pos \<Rightarrow> mk pos)"

section \<open>AST arena\<close>

datatype Node =
    List Token "int list"
  | Identifer Token
  | String Token
  | Empty

type_synonym AST = "Node list"

definition add :: "AST \<Rightarrow> Node \<Rightarrow> AST \<times> int" where
  \<comment> \<open>\<^verbatim>\<open>emplace_back\<close>, then \<^verbatim>\<open>size() - 1\<close>\<close>
  "add tree node = (tree @ [node], int (length (tree @ [node])) - 1)"

definition at :: "AST \<Rightarrow> int \<Rightarrow> Node option" where
  \<comment> \<open>\<^verbatim>\<open>tree[n]\<close>\<close>
  "at tree n = (if 0 \<le> n \<and> nat n < length tree then Some (tree ! nat n) else None)"

section \<open>Parser\<close>

text \<open>
  The recursion of \<^verbatim>\<open>expr\<close> and its \<^verbatim>\<open>while\<close> loop is bounded by fuel: \<open>None\<close> is a
  run that has not returned within the given depth.
\<close>

fun expr :: "nat \<Rightarrow> string \<Rightarrow> Lexer \<Rightarrow> AST \<Rightarrow> (error + (int \<times> Lexer \<times> AST)) option"
  and expr_children ::
    "nat \<Rightarrow> string \<Rightarrow> Lexer \<Rightarrow> AST \<Rightarrow> int list \<Rightarrow> (error + (int list \<times> Lexer \<times> AST)) option"
where
  "expr 0 src lexer tree = None"
| "expr (Suc n) src lexer tree =
     (case advance src lexer of
        Inl e \<Rightarrow> Some (Inl e)
      | Inr (t, lexer1) \<Rightarrow>
          if type t \<noteq> TOKEN_LPAREN then Some (Inl (error_at src lexer1 ExpectedLParen))
          else
            (case advance src lexer1 of
               Inl e \<Rightarrow> Some (Inl e)
             | Inr (op, lexer2) \<Rightarrow>
                 if type op = TOKEN_RPAREN then
                   (case add tree Empty of (tree', h) \<Rightarrow> Some (Inr (h, lexer2, tree')))
                 else if type op \<noteq> TOKEN_IDENTIFIER \<and> type op \<noteq> TOKEN_STRING then
                   Some (Inl (error_at src lexer2 ExpectedOperator))
                 else
                   (case expr_children n src lexer2 tree [] of
                      None \<Rightarrow> None
                    | Some (Inl e) \<Rightarrow> Some (Inl e)
                    | Some (Inr (children, lexer3, tree3)) \<Rightarrow>
                        (case advance src lexer3 of
                           Inl e \<Rightarrow> Some (Inl e)
                         | Inr (t', lexer4) \<Rightarrow>
                             if type t' \<noteq> TOKEN_RPAREN then
                               Some (Inl (error_at src lexer4 ExpectedRParen))
                             else
                               (case add tree3 (List op children) of
                                  (tree4, h) \<Rightarrow> Some (Inr (h, lexer4, tree4)))))))"
| "expr_children 0 src lexer tree children = None"
| "expr_children (Suc n) src lexer tree children =
     (if type (peek lexer) \<noteq> TOKEN_RPAREN \<and> type (peek lexer) \<noteq> TOKEN_EOF then
        if type (peek lexer) = TOKEN_LPAREN then
          (case expr n src lexer tree of
             None \<Rightarrow> None
           | Some (Inl e) \<Rightarrow> Some (Inl e)
           | Some (Inr (h, lexer', tree')) \<Rightarrow> expr_children n src lexer' tree' (children @ [h]))
        else if type (peek lexer) = TOKEN_IDENTIFIER then
          (case advance src lexer of
             Inl e \<Rightarrow> Some (Inl e)
           | Inr (t, lexer') \<Rightarrow>
               (case add tree (Identifer t) of
                  (tree', h) \<Rightarrow> expr_children n src lexer' tree' (children @ [h])))
        else if type (peek lexer) = TOKEN_STRING then
          (case advance src lexer of
             Inl e \<Rightarrow> Some (Inl e)
           | Inr (t, lexer') \<Rightarrow>
               (case add tree (String t) of
                  (tree', h) \<Rightarrow> expr_children n src lexer' tree' (children @ [h])))
        else expr_children n src lexer tree children
      else Some (Inr (children, lexer, tree)))"

fun parse :: "nat \<Rightarrow> string \<Rightarrow> Lexer \<Rightarrow> AST \<Rightarrow> int list \<Rightarrow> (error + (int list \<times> Lexer \<times> AST)) option"
where
  "parse 0 src lexer tree roots = None"
| "parse (Suc n) src lexer tree roots =
     (if type (peek lexer) \<noteq> TOKEN_EOF then
        (case expr n src lexer tree of
           None \<Rightarrow> None
         | Some (Inl e) \<Rightarrow> Some (Inl e)
         | Some (Inr (h, lexer', tree')) \<Rightarrow> parse n src lexer' tree' (roots @ [h]))
      else Some (Inr (roots, lexer, tree)))"

definition parse_buffer :: "string \<Rightarrow> (error + (int list \<times> AST)) option" where
  \<comment> \<open>\<^verbatim>\<open>AST tree; Lexer lex{buffer}; roots = parse(lex, tree);\<close> as in \<^verbatim>\<open>main\<close>\<close>
  "parse_buffer src =
     (case new_Lexer src of
        Inl e \<Rightarrow> Some (Inl e)
      | Inr lexer \<Rightarrow>
          (case parse (length src + 2) src lexer [] [] of
             None \<Rightarrow> None
           | Some (Inl e) \<Rightarrow> Some (Inl e)
           | Some (Inr (roots, lexer', tree)) \<Rightarrow> Some (Inr (roots, tree))))"

definition parse_file :: "string \<Rightarrow> (error + (int list \<times> AST)) option" where
  "parse_file contents = parse_buffer (c_str (read_file contents))"

section \<open>Renderer\<close>

definition tabs :: "int \<Rightarrow> string" where
  "tabs n = replicate (nat n) (CHR 0x09)"

definition digit :: "nat \<Rightarrow> char" where
  "digit d = ''0123456789'' ! d"

function decimal :: "nat \<Rightarrow> string" where
  "decimal n = (if n < 10 then [digit n] else decimal (n div 10) @ [digit (n mod 10)])"
  by pat_completeness auto

termination
  by (relation "measure (\<lambda>n. n)") auto

declare decimal.simps [simp del]

definition to_string :: "int \<Rightarrow> string" where
  \<comment> \<open>an \<^verbatim>\<open>int\<close> as \<^verbatim>\<open>operator<<\<close> and \<^verbatim>\<open>std::to_string\<close> print it\<close>
  "to_string i = (if i < 0 then CHR ''-'' # decimal (nat (- i)) else decimal (nat i))"

definition strcat :: "string list \<Rightarrow> string" where
  \<comment> \<open>the stream starts on the two-byte buffer \<^verbatim>\<open>{sizeof...(Ts), '\0'}\<close> and overwrites it
      from its first byte\<close>
  "strcat parts =
     (let buf = [char_of (length parts), CHR 0x00]; out = concat parts
      in out @ drop (length out) buf)"

definition view_text :: "string \<Rightarrow> View \<Rightarrow> string option" where
  \<comment> \<open>the bytes \<^verbatim>\<open>os.write(vbegin, vlength)\<close> reads\<close>
  "view_text src v =
     (if 0 \<le> vlength v \<and> vbegin v + nat (vlength v) \<le> length src
      then Some (take (nat (vlength v)) (drop (vbegin v) src)) else None)"

text \<open>
  The output \<^verbatim>\<open>std::string& str\<close> is only ever appended to.  It is kept as the list of the
  pieces appended, one per \<^verbatim>\<open>str += ...\<close> statement; \<open>stmt_text\<close> is the text of a piece
  and \<open>output_text\<close> the string built.
\<close>

datatype stmt =
    Open int string
  | NodeDecl int int string
  | EdgeDecl int int int
  | Close int

fun stmt_text :: "stmt \<Rightarrow> string" where
  "stmt_text (Open indent_size title) = tabs indent_size @ title @ '' {'' @ [CHR 0x0A]"
| "stmt_text (NodeDecl indent_size self_id label) =
     tabs indent_size @ strcat [''n'', to_string self_id, '' [label=\"'', label, ''\"];'' @ [CHR 0x0A]]"
| "stmt_text (EdgeDecl indent_size parent_id self_id) =
     tabs indent_size @ strcat [''n'', to_string parent_id, '' -> n'', to_string self_id, '';'' @ [CHR 0x0A]]"
| "stmt_text (Close indent_size) = tabs indent_size @ ''}'' @ [CHR 0x0A]"

definition output_text :: "stmt list \<Rightarrow> string" where
  "output_text out = concat (map stmt_text out)"

definition render_leaf ::
  "string \<Rightarrow> Token \<Rightarrow> stmt list \<Rightarrow> int \<Rightarrow> int \<Rightarrow> int \<Rightarrow> error + (stmt list \<times> int)"
where
  \<comment> \<open>what the three printing alternatives share: take an id, declare the node, and
      declare the edge unless the id is the parent's\<close>
  "render_leaf src tok out indent_size parent_id node_counter =
     (let self_id = node_counter in
      case incr node_counter of
        Inl e \<Rightarrow> Inl e
      | Inr node_counter' \<Rightarrow>
          (case view_text src (view tok) of
             None \<Rightarrow> Inl OutOfBounds
           | Some label \<Rightarrow>
               Inr ((out @ [NodeDecl indent_size self_id label]) @
                      (if self_id \<noteq> parent_id then [EdgeDecl indent_size parent_id self_id] else []),
                    node_counter')))"

text \<open>
  The recursion of \<^verbatim>\<open>render_nodes\<close> through the children is bounded by fuel, since an
  arena whose handles form a cycle makes the source recurse forever.
\<close>

fun render_nodes ::
    "nat \<Rightarrow> string \<Rightarrow> Node \<Rightarrow> AST \<Rightarrow> stmt list \<Rightarrow> int \<Rightarrow> int \<Rightarrow> int \<Rightarrow>
     (error + (stmt list \<times> int)) option"
  and render_children ::
    "nat \<Rightarrow> string \<Rightarrow> int list \<Rightarrow> AST \<Rightarrow> stmt list \<Rightarrow> int \<Rightarrow> int \<Rightarrow> int \<Rightarrow>
     (error + (stmt list \<times> int)) option"
where
  "render_nodes 0 src variant tree out indent_size parent_id node_counter = None"
| "render_nodes (Suc n) src (List op children) tree out indent_size parent_id node_counter =
     (case render_leaf src op out indent_size parent_id node_counter of
        Inl e \<Rightarrow> Some (Inl e)
      | Inr (out', node_counter') \<Rightarrow>
          render_children n src children tree out' indent_size node_counter node_counter')"
| "render_nodes (Suc n) src (Identifer x) tree out indent_size parent_id node_counter =
     Some (render_leaf src x out indent_size parent_id node_counter)"
| "render_nodes (Suc n) src (String x) tree out indent_size parent_id node_counter =
     Some (render_leaf src x out indent_size parent_id node_counter)"
| "render_nodes (Suc n) src Empty tree out indent_size parent_id node_counter =
     Some (Inr (out, node_counter))"
| "render_children n src [] tree out indent_size self_id node_counter =
     Some (Inr (out, node_counter))"
| "render_children n src (child # rest) tree out indent_size self_id node_counter =
     (case at tree child of
        None \<Rightarrow> Some (Inl OutOfBounds)
      | Some variant \<Rightarrow>
          (case render_nodes n src variant tree out indent_size self_id node_counter of
             None \<Rightarrow> None
           | Some (Inl e) \<Rightarrow> Some (Inl e)
           | Some (Inr (out', node_counter')) \<Rightarrow>
               (case incr node_counter' of
                  Inl e \<Rightarrow> Some (Inl e)
                | Inr node_counter'' \<Rightarrow>
                    render_children n src rest tree out' indent_size self_id node_counter'')))"

definition render_cluster ::
  "nat \<Rightarrow> string \<Rightarrow> Node \<Rightarrow> AST \<Rightarrow> stmt list \<Rightarrow> int \<Rightarrow> string \<Rightarrow> int \<Rightarrow>
   (error + (stmt list \<times> int)) option"
where
  "render_cluster n src variant tree out node_counter title indent_size =
     (case render_nodes n src variant tree (out @ [Open indent_size title])
             (indent_size + 1) node_counter node_counter of
        None \<Rightarrow> None
      | Some (Inl e) \<Rightarrow> Some (Inl e)
      | Some (Inr (out', node_counter')) \<Rightarrow>
          (case incr node_counter' of
             Inl e \<Rightarrow> Some (Inl e)
           | Inr node_counter'' \<Rightarrow> Some (Inr (out' @ [Close indent_size], node_counter''))))"

fun render_roots ::
  "nat \<Rightarrow> string \<Rightarrow> int list \<Rightarrow> AST \<Rightarrow> stmt list \<Rightarrow> int \<Rightarrow> int \<Rightarrow> int \<Rightarrow>
   (error + (stmt list \<times> int)) option"
where
  \<comment> \<open>the \<^verbatim>\<open>for\<close> loop of \<^verbatim>\<open>render\<close> over the roots\<close>
  "render_roots n src [] tree out node_counter graph_id indent_size =
     Some (Inr (out, node_counter))"
| "render_roots n src (r # roots) tree out node_counter graph_id indent_size =
     (case at tree r of
        None \<Rightarrow> Some (Inl OutOfBounds)
      | Some variant \<Rightarrow>
          (case render_cluster n src variant tree out node_counter
                  (''subgraph cluster'' @ to_string graph_id) (indent_size + 1) of
             None \<Rightarrow> None
           | Some (Inl e) \<Rightarrow> Some (Inl e)
           | Some (Inr (out', node_counter')) \<Rightarrow>
               (case incr graph_id of
                  Inl e \<Rightarrow> Some (Inl e)
                | Inr graph_id' \<Rightarrow>
                    render_roots n src roots tree out' node_counter' graph_id' indent_size)))"

definition render_stmts :: "string \<Rightarrow> int list \<Rightarrow> AST \<Rightarrow> (error + stmt list) option" where
  \<comment> \<open>\<^verbatim>\<open>render(roots, tree)\<close> with its default title and indentation, as the pieces
      appended; a walk deeper than the arena is long has met a node twice\<close>
  "render_stmts src roots tree =
     (case render_roots (length tree) src roots tree [Open 0 ''digraph''] 0 0 0 of
        None \<Rightarrow> None
      | Some (Inl e) \<Rightarrow> Some (Inl e)
      | Some (Inr (out, node_counter)) \<Rightarrow> Some (Inr (out @ [Close 0])))"

definition render :: "string \<Rightarrow> int list \<Rightarrow> AST \<Rightarrow> (error + string) option" where
  "render src roots tree =
     (case render_stmts src roots tree of
        None \<Rightarrow> None
      | Some (Inl e) \<Rightarrow> Some (Inl e)
      | Some (Inr out) \<Rightarrow> Some (Inr (output_text out)))"

definition run :: "string \<Rightarrow> (error + string) option" where
  \<comment> \<open>\<^verbatim>\<open>main\<close> on the contents of the file: parse, then render\<close>
  "run contents =
     (let src = c_str (read_file contents) in
      case parse_buffer src of
        None \<Rightarrow> None
      | Some (Inl e) \<Rightarrow> Some (Inl e)
      | Some (Inr (roots, tree)) \<Rightarrow> render src roots tree)"

section \<open>Notions used to state the properties\<close>

subsection \<open>The position scan of the specification\<close>

text \<open>The scan the specification describes: every byte from the start up to, but not
  including, the cursor.\<close>

fun position_spec_scan :: "string \<Rightarrow> Position \<Rightarrow> Position" where
  "position_spec_scan [] coord = coord"
| "position_spec_scan (c # cs) coord =
     (if c = CHR 0x0A then position_spec_scan cs (coord\<lparr>column := 1, line := line coord + 1\<rparr>)
      else position_spec_scan cs (coord\<lparr>column := column coord + 1\<rparr>))"

definition position_spec :: "string \<Rightarrow> nat \<Rightarrow> Position" where
  "position_spec src cursor = position_spec_scan (take cursor src) \<lparr>line = 1, column = 1\<rparr>"

subsection \<open>Handles stored in an arena\<close>

fun children_of :: "Node \<Rightarrow> int list" where
  "children_of (List op children) = children"
| "children_of (Identifer x) = []"
| "children_of (String x) = []"
| "children_of Empty = []"

definition references :: "AST \<Rightarrow> int list" where
  "references tree = concat (map children_of tree)"

definition block_ok :: "nat \<Rightarrow> Node list \<Rightarrow> int list \<Rightarrow> bool" where
  "block_ok base new pending \<longleftrightarrow>
     (\<forall>j < length new. \<forall>c \<in> set (children_of (new ! j)). int base \<le> c \<and> c < int (base + j)) \<and>
     distinct (references new @ pending) \<and>
     set (references new @ pending) = {int base ..< int (base + length new)}"

subsection \<open>Node ids of an output, and the edge rule of the specification\<close>

fun node_ids :: "stmt list \<Rightarrow> int list" where
  "node_ids [] = []"
| "node_ids (NodeDecl indent_size self_id label # out) = self_id # node_ids out"
| "node_ids (Open indent_size title # out) = node_ids out"
| "node_ids (EdgeDecl indent_size parent_id self_id # out) = node_ids out"
| "node_ids (Close indent_size # out) = node_ids out"

definition ids_within :: "stmt list \<Rightarrow> int \<Rightarrow> int \<Rightarrow> bool" where
  "ids_within new lo hi \<longleftrightarrow>
     sorted_wrt (<) (node_ids new) \<and> (\<forall>i \<in> set (node_ids new). lo \<le> i \<and> i < hi)"








subsection \<open>Lexemes, layouts and the shape of a parse\<close>

datatype lexeme = LParen | RParen | Quoted char string | Word string

fun spelling :: "lexeme \<Rightarrow> string" where
  "spelling LParen = ''(''"
| "spelling RParen = '')''"
| "spelling (Quoted d body) = d # body @ [d]"
| "spelling (Word w) = w"

fun kind :: "lexeme \<Rightarrow> token_type" where
  "kind LParen = TOKEN_LPAREN"
| "kind RParen = TOKEN_RPAREN"
| "kind (Quoted d body) = TOKEN_STRING"
| "kind (Word w) = TOKEN_IDENTIFIER"

fun token_text :: "lexeme \<Rightarrow> string" where
  "token_text LParen = ''(''"
| "token_text RParen = '')''"
| "token_text (Quoted d body) = body"
| "token_text (Word w) = (if hd w = CHR 0x5C then tl w else w)"

definition is_delimiter :: "char \<Rightarrow> bool" where
  "is_delimiter c \<longleftrightarrow> is_whitespace c \<or> c = CHR ''('' \<or> c = CHR '')''"

fun well_formed :: "lexeme \<Rightarrow> bool" where
  "well_formed LParen = True"
| "well_formed RParen = True"
| "well_formed (Quoted d body) \<longleftrightarrow>
     (d = CHR 0x22 \<or> d = CHR 0x27) \<and> d \<notin> set body \<and> CHR 0x00 \<notin> set body
     \<and> length body < 2147483648"
| "well_formed (Word w) \<longleftrightarrow>
     w \<noteq> [] \<and> hd w \<noteq> CHR 0x00 \<and> hd w \<noteq> CHR 0x22 \<and> hd w \<noteq> CHR 0x27
     \<and> (\<forall>c \<in> set w. \<not> is_delimiter c) \<and> length w < 2147483648"

fun layout :: "(string \<times> lexeme) list \<Rightarrow> string" where
  "layout [] = []"
| "layout ((ws, l) # items) = ws @ spelling l @ layout items"

definition starts_with_delimiter :: "string \<Rightarrow> bool" where
  "starts_with_delimiter s \<longleftrightarrow> s \<noteq> [] \<and> is_delimiter (hd s)"

fun is_Word :: "lexeme \<Rightarrow> bool" where
  "is_Word (Word w) = True"
| "is_Word l = False"

fun separated :: "(string \<times> lexeme) list \<Rightarrow> string \<Rightarrow> bool" where
  "separated [] trailing = list_all is_whitespace trailing"
| "separated ((ws, l) # items) trailing \<longleftrightarrow>
     list_all is_whitespace ws \<and> well_formed l
     \<and> (if is_Word l then starts_with_delimiter (layout items @ trailing) else True)
     \<and> separated items trailing"

fun quote_first :: "(string \<times> lexeme) list \<Rightarrow> bool" where
  "quote_first (([], Quoted d body) # items) = True"
| "quote_first items = False"

fun a_peek :: "lexeme list \<Rightarrow> token_type" where
  "a_peek [] = TOKEN_EOF"
| "a_peek (l # ls) = kind l"

fun a_text :: "lexeme list \<Rightarrow> string option" where
  "a_text [] = Some [CHR 0x00]"
| "a_text (l # ls) = Some (token_text l)"

definition lexer_at :: "string \<Rightarrow> Lexer \<Rightarrow> lexeme list \<Rightarrow> bool" where
  "lexer_at src lexer ls \<longleftrightarrow>
     type (lookahead lexer) = a_peek ls
     \<and> view_text src (view (lookahead lexer)) = a_text ls
     \<and> (if ls = [] then str lexer < length src \<and> src ! str lexer = CHR 0x00
        else \<exists>P items trailing tail.
               src = P @ layout items @ trailing @ CHR 0x00 # tail
             \<and> str lexer = length P
             \<and> map snd items = tl ls
             \<and> separated items trailing
             \<and> (quote_first items \<longrightarrow> P \<noteq> [] \<and> last P \<noteq> CHR 0x5C))"

datatype shape =
    ShList token_type "string option" "int list"
  | ShIdentifer "string option"
  | ShString "string option"
  | ShEmpty

fun shape_of :: "string \<Rightarrow> Node \<Rightarrow> shape" where
  "shape_of src (List op children) = ShList (type op) (view_text src (view op)) children"
| "shape_of src (Identifer x) = ShIdentifer (view_text src (view x))"
| "shape_of src (String x) = ShString (view_text src (view x))"
| "shape_of src Empty = ShEmpty"

text \<open>
  The parser again, on the sequence of lexemes that is still ahead (its head is the
  lookahead, the empty sequence is the end of input), building the shapes of the nodes.
\<close>

fun a_expr :: "nat \<Rightarrow> lexeme list \<Rightarrow> shape list \<Rightarrow> (unit + (int \<times> lexeme list \<times> shape list)) option"
  and a_children ::
    "nat \<Rightarrow> lexeme list \<Rightarrow> shape list \<Rightarrow> int list \<Rightarrow> (unit + (int list \<times> lexeme list \<times> shape list)) option"
where
  "a_expr 0 ls tree = None"
| "a_expr (Suc n) ls tree =
     (if a_peek ls \<noteq> TOKEN_LPAREN then Some (Inl ())
      else if a_peek (tl ls) = TOKEN_RPAREN then
        Some (Inr (int (length tree), tl (tl ls), tree @ [ShEmpty]))
      else if a_peek (tl ls) \<noteq> TOKEN_IDENTIFIER \<and> a_peek (tl ls) \<noteq> TOKEN_STRING then Some (Inl ())
      else
        (case a_children n (tl (tl ls)) tree [] of
           None \<Rightarrow> None
         | Some (Inl e) \<Rightarrow> Some (Inl ())
         | Some (Inr (children, ls3, tree3)) \<Rightarrow>
             if a_peek ls3 \<noteq> TOKEN_RPAREN then Some (Inl ())
             else Some (Inr (int (length tree3), tl ls3,
                             tree3 @ [ShList (a_peek (tl ls)) (a_text (tl ls)) children]))))"
| "a_children 0 ls tree children = None"
| "a_children (Suc n) ls tree children =
     (if a_peek ls \<noteq> TOKEN_RPAREN \<and> a_peek ls \<noteq> TOKEN_EOF then
        if a_peek ls = TOKEN_LPAREN then
          (case a_expr n ls tree of
             None \<Rightarrow> None
           | Some (Inl e) \<Rightarrow> Some (Inl ())
           | Some (Inr (h, ls', tree')) \<Rightarrow> a_children n ls' tree' (children @ [h]))
        else if a_peek ls = TOKEN_IDENTIFIER then
          a_children n (tl ls) (tree @ [ShIdentifer (a_text ls)]) (children @ [int (length tree)])
        else if a_peek ls = TOKEN_STRING then
          a_children n (tl ls) (tree @ [ShString (a_text ls)]) (children @ [int (length tree)])
        else a_children n ls tree children
      else Some (Inr (children, ls, tree)))"

fun a_parse :: "nat \<Rightarrow> lexeme list \<Rightarrow> shape list \<Rightarrow> int list \<Rightarrow> (unit + (int list \<times> lexeme list \<times> shape list)) option"
where
  "a_parse 0 ls tree roots = None"
| "a_parse (Suc n) ls tree roots =
     (if a_peek ls \<noteq> TOKEN_EOF then
        (case a_expr n ls tree of
           None \<Rightarrow> None
         | Some (Inl e) \<Rightarrow> Some (Inl ())
         | Some (Inr (h, ls', tree')) \<Rightarrow> a_parse n ls' tree' (roots @ [h]))
      else Some (Inr (roots, ls, tree)))"

definition sim ::
  "string \<Rightarrow> (error + ('x \<times> Lexer \<times> AST)) option \<Rightarrow> (unit + ('x \<times> lexeme list \<times> shape list)) option \<Rightarrow> bool"
where
  "sim src r a \<longleftrightarrow>
     (case r of
        None \<Rightarrow> a = None
      | Some (Inl e) \<Rightarrow> a = Some (Inl ())
      | Some (Inr (x, lexer', tree')) \<Rightarrow>
          \<exists>ls'. a = Some (Inr (x, ls', map (shape_of src) tree')) \<and> lexer_at src lexer' ls')"

definition ast_shape :: "string \<Rightarrow> (error + (int list \<times> AST)) option \<Rightarrow> (int list \<times> shape list) option" where
  \<comment> \<open>what a parse result says about structure: the roots and, node by node, the kind of the
      node, the text of its token and its children; nothing for a failed parse\<close>
  "ast_shape src r =
     (case r of
        Some (Inr (roots, tree)) \<Rightarrow> Some (roots, map (shape_of src) tree)
      | _ \<Rightarrow> None)"

definition a_shape :: "nat \<Rightarrow> lexeme list \<Rightarrow> (int list \<times> shape list) option" where
  "a_shape n ls =
     (case a_parse n ls [] [] of
        Some (Inr (roots, ls', tree)) \<Rightarrow> Some (roots, tree)
      | _ \<Rightarrow> None)"

subsection \<open>A bound on the work left to the parser\<close>

definition remaining :: "string \<Rightarrow> Lexer \<Rightarrow> nat" where
  \<comment> \<open>what the lexer still has to deliver: the bytes behind the cursor, and the lookahead
      unless it is the end of input\<close>
  "remaining src lexer =
     (length src - str lexer) + (if type (lookahead lexer) = TOKEN_EOF then 0 else 1)"

section \<open>Facts about the tokenizer\<close>

lemma deref_Some [simp]: "p < length src \<Longrightarrow> deref src p = Some (src ! p)"
  by (simp add: deref_def)

lemma deref_None [simp]: "length src \<le> p \<Longrightarrow> deref src p = None"
  by (simp add: deref_def)

lemma string_loop_stop:
  assumes "p < k" "k < length src" "src ! k = delim \<or> src ! k = CHR 0x00"
    and "\<forall>i. p < i \<and> i < k \<longrightarrow> src ! i \<noteq> delim \<and> src ! i \<noteq> CHR 0x00"
  shows "string_loop src delim p = Inr k"
  using assms
proof (induction "k - p" arbitrary: p)
  case 0
  then show ?case by simp
next
  case (Suc n)
  show ?case
  proof (cases "p + 1 = k")
    case True
    with Suc.prems show ?thesis
      by (subst string_loop.simps) auto
  next
    case False
    with Suc.prems have lt: "p + 1 < k" by simp
    with Suc.prems have "src ! (p + 1) \<noteq> delim \<and> src ! (p + 1) \<noteq> CHR 0x00" by simp
    moreover have "string_loop src delim (p + 1) = Inr k"
      using Suc.hyps(2) Suc.prems lt by (intro Suc.hyps(1)) auto
    ultimately show ?thesis
      using Suc.prems lt by (subst string_loop.simps) simp
  qed
qed

lemma identifier_loop_stop:
  assumes "p < k" "k < length src"
    and "is_whitespace (src ! k) \<or> src ! k = CHR ''('' \<or> src ! k = CHR '')''"
    and "\<forall>i. p < i \<and> i < k \<longrightarrow>
           \<not> is_whitespace (src ! i) \<and> src ! i \<noteq> CHR ''('' \<and> src ! i \<noteq> CHR '')''"
  shows "identifier_loop src p = Inr k"
  using assms
proof (induction "k - p" arbitrary: p)
  case 0
  then show ?case by simp
next
  case (Suc n)
  show ?case
  proof (cases "p + 1 = k")
    case True
    with Suc.prems show ?thesis
      by (subst identifier_loop.simps) auto
  next
    case False
    with Suc.prems have lt: "p + 1 < k" by simp
    with Suc.prems have "\<not> is_whitespace (src ! (p + 1)) \<and> src ! (p + 1) \<noteq> CHR ''(''
        \<and> src ! (p + 1) \<noteq> CHR '')''" by simp
    moreover have "identifier_loop src (p + 1) = Inr k"
      using Suc.hyps(2) Suc.prems lt by (intro Suc.hyps(1)) auto
    ultimately show ?thesis
      using Suc.prems lt by (subst identifier_loop.simps) simp
  qed
qed

lemma whitespace_loop_stop:
  assumes "p < k" "k < length src" "\<not> is_whitespace (src ! k)"
    and "\<forall>i. p < i \<and> i < k \<longrightarrow> is_whitespace (src ! i)"
  shows "whitespace_loop src p = Inr k"
  using assms
proof (induction "k - p" arbitrary: p)
  case 0
  then show ?case by simp
next
  case (Suc n)
  show ?case
  proof (cases "p + 1 = k")
    case True
    with Suc.prems show ?thesis
      by (subst whitespace_loop.simps) auto
  next
    case False
    with Suc.prems have lt: "p + 1 < k" by simp
    with Suc.prems have "is_whitespace (src ! (p + 1))" by simp
    moreover have "whitespace_loop src (p + 1) = Inr k"
      using Suc.hyps(2) Suc.prems lt by (intro Suc.hyps(1)) auto
    ultimately show ?thesis
      using Suc.prems lt by (subst whitespace_loop.simps) simp
  qed
qed

lemma to_int32_id: "0 \<le> x \<Longrightarrow> x < 2147483648 \<Longrightarrow> to_int32 x = x"
  by (simp add: to_int32_def)

lemma next_token_string:
  assumes q: "0 < q" "q < k" "k < length src"
    and d: "src ! q = d" "d = CHR 0x22 \<or> d = CHR 0x27"
    and prev: "src ! (q - 1) \<noteq> CHR 0x5C"
    and stop: "src ! k = d \<or> src ! k = CHR 0x00"
    and body: "\<forall>i. q < i \<and> i < k \<longrightarrow> src ! i \<noteq> d \<and> src ! i \<noteq> CHR 0x00"
  shows "next_token src q =
    Inr (\<lparr>view = \<lparr>vbegin = q + 1, vlength = to_int32 (int k - int q - 1)\<rparr>, type = TOKEN_STRING\<rparr>,
         k + 1)"
proof -
  have loop: "string_loop src d q = Inr k"
    using q stop body by (intro string_loop_stop) auto
  have start: "is_string_start src q d = Inr True"
    using q d prev by (auto simp: is_string_start_def deref_prev_def)
  from q d have "deref src q = Some d" by simp
  moreover from d have "d \<noteq> CHR 0x00" "d \<noteq> CHR ''(''" "d \<noteq> CHR '')''" by auto
  ultimately show ?thesis
    using loop start by (subst next_token.simps) (simp add: algebra_simps)
qed

lemma is_whitespace_not_special:
  "is_whitespace c \<Longrightarrow> c \<noteq> CHR 0x00 \<and> c \<noteq> CHR ''('' \<and> c \<noteq> CHR '')'' \<and> c \<noteq> CHR 0x22 \<and> c \<noteq> CHR 0x27"
  by (auto simp: is_whitespace_def)

lemma next_token_eof:
  "p < length src \<Longrightarrow> src ! p = CHR 0x00 \<Longrightarrow>
   next_token src p = Inr (\<lparr>view = \<lparr>vbegin = p, vlength = 1\<rparr>, type = TOKEN_EOF\<rparr>, p)"
  by (subst next_token.simps) simp

lemma next_token_whitespace:
  assumes "p < k" "k < length src" "\<not> is_whitespace (src ! k)"
    and "\<forall>i. p \<le> i \<and> i < k \<longrightarrow> is_whitespace (src ! i)"
  shows "next_token src p = next_token src k"
proof -
  have ws: "is_whitespace (src ! p)" using assms by simp
  have "whitespace_loop src p = Inr k"
    using assms by (intro whitespace_loop_stop) auto
  then show ?thesis
    using assms(1,2) ws is_whitespace_not_special [OF ws]
    by (subst next_token.simps) (simp add: is_string_start_def)
qed

lemma new_Lexer_blank:
  assumes "\<forall>c \<in> set ws. is_whitespace c"
  shows "new_Lexer (ws @ CHR 0x00 # rest) =
     Inr \<lparr>str = length ws, lookahead = \<lparr>view = \<lparr>vbegin = length ws, vlength = 1\<rparr>, type = TOKEN_EOF\<rparr>\<rparr>"
proof -
  let ?src = "ws @ CHR 0x00 # rest"
  have eof: "next_token ?src (length ws) =
      Inr (\<lparr>view = \<lparr>vbegin = length ws, vlength = 1\<rparr>, type = TOKEN_EOF\<rparr>, length ws)"
    by (rule next_token_eof) simp_all
  have "next_token ?src 0 = next_token ?src (length ws)"
  proof (cases "ws = []")
    case True
    then show ?thesis by simp
  next
    case False
    show ?thesis
    proof (rule next_token_whitespace)
      show "0 < length ws" using False by simp
      show "length ws < length ?src" by simp
      show "\<not> is_whitespace (?src ! length ws)" by (simp add: is_whitespace_def)
      show "\<forall>i. 0 \<le> i \<and> i < length ws \<longrightarrow> is_whitespace (?src ! i)"
        using assms by (simp add: nth_append)
    qed
  qed
  with eof show ?thesis by (simp add: new_Lexer_def)
qed

lemma between_in_body:
  assumes "q < i" "i < k" "k < length src"
  shows "src ! i \<in> set (take (k - q - 1) (drop (q + 1) src))"
proof -
  let ?body = "take (k - q - 1) (drop (q + 1) src)"
  have "i - q - 1 < length ?body" using assms by simp
  moreover have "?body ! (i - q - 1) = src ! i" using assms by simp
  ultimately show ?thesis by (metis nth_mem)
qed

lemma nat_view_length: "q < k \<Longrightarrow> nat (int k - int q - 1) = k - q - 1"
  by linarith

section \<open>Position tracker: the byte under the cursor instead of the first byte\<close>

text \<open>
  Claim C2.  The specification has \<open>position\<close> scan every byte from the start of the
  source up to, but not including, the cursor (\<open>position_spec\<close>).  The loop of the source
  tests \<^verbatim>\<open>ptr++ != end\<close> and then reads \<^verbatim>\<open>*ptr\<close>, so it inspects the bytes at offsets
  \<open>1, ..., cursor\<close>: it never looks at the first byte and it does look at the byte under the
  cursor.  On the file consisting of a newline and a closing parenthesis the parser reports
  its error at 1:3, while the scan of the specification gives 2:2.
\<close>

theorem position_skips_first_byte:
  "parse_file [CHR 0x0A, CHR '')''] = Some (Inl (ExpectedLParen \<lparr>line = 1, column = 3\<rparr>))
   \<and> position (c_str (read_file [CHR 0x0A, CHR '')''])) 0 2 = Inr \<lparr>line = 1, column = 3\<rparr>
   \<and> position_spec (c_str (read_file [CHR 0x0A, CHR '')''])) 2 = \<lparr>line = 2, column = 2\<rparr>"
  by code_simp

section \<open>Top-level forms\<close>

text \<open>
  Claim C1, as stated: the input \<^verbatim>\<open>()a\<close> yields two roots.  It does not: \<^verbatim>\<open>a\<close> is not a
  form, because \<open>expr\<close> insists on an opening parenthesis.  (On exactly \<^verbatim>\<open>()a\<close> the
  identifier scan does not even stop at the terminator; with a newline behind \<^verbatim>\<open>a\<close> the
  parser reaches its own check.)
\<close>

theorem bare_identifier_after_empty_form_rejected:
  "parse_file ''()a'' = Some (Inl OutOfBounds)
   \<and> parse_file (''()a'' @ [CHR 0x0A]) = Some (Inl (ExpectedLParen \<lparr>line = 2, column = 2\<rparr>))"
  by code_simp

text \<open>
  Claim C1, amended.  On \<^verbatim>\<open>()a\<close> followed by a newline the driver restarts per form: its
  first call of \<open>expr\<close> turns \<^verbatim>\<open>()\<close> into an \<open>Empty\<close> node with handle 0, and its second
  call, on the lookahead \<^verbatim>\<open>a\<close>, is the fatal error \<^verbatim>\<open>expected `(`\<close>, so no roots are
  returned.  Two parenthesised forms, \<^verbatim>\<open>()(a)\<close>, do give two roots: the \<open>Empty\<close> node, then
  the \<open>List\<close> of \<^verbatim>\<open>a\<close>.
\<close>

theorem top_level_restarts_per_form:
  "(\<exists>pos. parse_file (''()a'' @ [CHR 0x0A]) = Some (Inl (ExpectedLParen pos)))
   \<and> new_Lexer (c_str (read_file (''()a'' @ [CHR 0x0A]))) =
       Inr \<lparr>str = 1, lookahead = \<lparr>view = \<lparr>vbegin = 0, vlength = 1\<rparr>, type = TOKEN_LPAREN\<rparr>\<rparr>
   \<and> expr 1 (c_str (read_file (''()a'' @ [CHR 0x0A])))
         \<lparr>str = 1, lookahead = \<lparr>view = \<lparr>vbegin = 0, vlength = 1\<rparr>, type = TOKEN_LPAREN\<rparr>\<rparr> [] =
       Some (Inr (0, \<lparr>str = 3, lookahead = \<lparr>view = \<lparr>vbegin = 2, vlength = 1\<rparr>, type = TOKEN_IDENTIFIER\<rparr>\<rparr>,
                  [Empty]))
   \<and> (\<exists>pos. expr 1 (c_str (read_file (''()a'' @ [CHR 0x0A])))
         \<lparr>str = 3, lookahead = \<lparr>view = \<lparr>vbegin = 2, vlength = 1\<rparr>, type = TOKEN_IDENTIFIER\<rparr>\<rparr> [Empty] =
       Some (Inl (ExpectedLParen pos)))
   \<and> parse_file ''()(a)'' =
       Some (Inr ([0, 1],
         [Empty, List \<lparr>view = \<lparr>vbegin = 3, vlength = 1\<rparr>, type = TOKEN_IDENTIFIER\<rparr> []]))
   \<and> view_text (c_str (read_file ''()(a)'')) \<lparr>vbegin = 3, vlength = 1\<rparr> = Some ''a''"
proof -
  have a: "parse_file (''()a'' @ [CHR 0x0A]) = Some (Inl (ExpectedLParen \<lparr>line = 2, column = 2\<rparr>))"
    by code_simp
  have b: "new_Lexer (c_str (read_file (''()a'' @ [CHR 0x0A]))) =
       Inr \<lparr>str = 1, lookahead = \<lparr>view = \<lparr>vbegin = 0, vlength = 1\<rparr>, type = TOKEN_LPAREN\<rparr>\<rparr>"
    by code_simp
  have c: "expr 1 (c_str (read_file (''()a'' @ [CHR 0x0A])))
         \<lparr>str = 1, lookahead = \<lparr>view = \<lparr>vbegin = 0, vlength = 1\<rparr>, type = TOKEN_LPAREN\<rparr>\<rparr> [] =
       Some (Inr (0, \<lparr>str = 3, lookahead = \<lparr>view = \<lparr>vbegin = 2, vlength = 1\<rparr>, type = TOKEN_IDENTIFIER\<rparr>\<rparr>,
                  [Empty]))"
    by code_simp
  have d: "expr 1 (c_str (read_file (''()a'' @ [CHR 0x0A])))
         \<lparr>str = 3, lookahead = \<lparr>view = \<lparr>vbegin = 2, vlength = 1\<rparr>, type = TOKEN_IDENTIFIER\<rparr>\<rparr> [Empty] =
       Some (Inl (ExpectedLParen \<lparr>line = 2, column = 2\<rparr>))"
    by code_simp
  have e: "parse_file ''()(a)'' =
       Some (Inr ([0, 1],
         [Empty, List \<lparr>view = \<lparr>vbegin = 3, vlength = 1\<rparr>, type = TOKEN_IDENTIFIER\<rparr> []]))"
    by code_simp
  have f: "view_text (c_str (read_file ''()(a)'')) \<lparr>vbegin = 3, vlength = 1\<rparr> = Some ''a''"
    by code_simp
  from a b c d e f show ?thesis by blast
qed

section \<open>The end-to-end example\<close>

text \<open>
  Claim C3.  The input \<^verbatim>\<open>(add (mul 2 3) "x")\<close> parses to one root, handle 4, the \<open>List\<close>
  whose operator reads \<^verbatim>\<open>add\<close> and whose children are handle 2, the \<open>List\<close> of \<^verbatim>\<open>mul\<close>
  with the identifiers \<^verbatim>\<open>2\<close> and \<^verbatim>\<open>3\<close>, and handle 3, the string \<^verbatim>\<open>x\<close>.  Rendering appends
  one cluster holding five node declarations and four edge declarations, parents before
  children and children in source order; the last conjunct is the text printed, byte for
  byte.
\<close>

theorem add_mul_example:
  "parse_file ''(add (mul 2 3) \"x\")'' =
     Some (Inr ([4],
       [Identifer \<lparr>view = \<lparr>vbegin = 10, vlength = 1\<rparr>, type = TOKEN_IDENTIFIER\<rparr>,
        Identifer \<lparr>view = \<lparr>vbegin = 12, vlength = 1\<rparr>, type = TOKEN_IDENTIFIER\<rparr>,
        List \<lparr>view = \<lparr>vbegin = 6, vlength = 3\<rparr>, type = TOKEN_IDENTIFIER\<rparr> [0, 1],
        String \<lparr>view = \<lparr>vbegin = 16, vlength = 1\<rparr>, type = TOKEN_STRING\<rparr>,
        List \<lparr>view = \<lparr>vbegin = 1, vlength = 3\<rparr>, type = TOKEN_IDENTIFIER\<rparr> [2, 3]]))
   \<and> map (view_text (c_str (read_file ''(add (mul 2 3) \"x\")'')))
        [\<lparr>vbegin = 1, vlength = 3\<rparr>, \<lparr>vbegin = 6, vlength = 3\<rparr>, \<lparr>vbegin = 10, vlength = 1\<rparr>,
         \<lparr>vbegin = 12, vlength = 1\<rparr>, \<lparr>vbegin = 16, vlength = 1\<rparr>] =
       [Some ''add'', Some ''mul'', Some ''2'', Some ''3'', Some ''x'']
   \<and> render_stmts (c_str (read_file ''(add (mul 2 3) \"x\")'')) [4]
       [Identifer \<lparr>view = \<lparr>vbegin = 10, vlength = 1\<rparr>, type = TOKEN_IDENTIFIER\<rparr>,
        Identifer \<lparr>view = \<lparr>vbegin = 12, vlength = 1\<rparr>, type = TOKEN_IDENTIFIER\<rparr>,
        List \<lparr>view = \<lparr>vbegin = 6, vlength = 3\<rparr>, type = TOKEN_IDENTIFIER\<rparr> [0, 1],
        String \<lparr>view = \<lparr>vbegin = 16, vlength = 1\<rparr>, type = TOKEN_STRING\<rparr>,
        List \<lparr>view = \<lparr>vbegin = 1, vlength = 3\<rparr>, type = TOKEN_IDENTIFIER\<rparr> [2, 3]] =
     Some (Inr
       [Open 0 ''digraph'',
        Open 1 ''subgraph cluster0'',
        NodeDecl 2 0 ''add'',
        NodeDecl 2 1 ''mul'', EdgeDecl 2 0 1,
        NodeDecl 2 2 ''2'', EdgeDecl 2 1 2,
        NodeDecl 2 4 ''3'', EdgeDecl 2 1 4,
        NodeDecl 2 7 ''x'', EdgeDecl 2 0 7,
        Close 1,
        Close 0])
   \<and> run ''(add (mul 2 3) \"x\")'' = Some (Inr (output_text
       [Open 0 ''digraph'',
        Open 1 ''subgraph cluster0'',
        NodeDecl 2 0 ''add'',
        NodeDecl 2 1 ''mul'', EdgeDecl 2 0 1,
        NodeDecl 2 2 ''2'', EdgeDecl 2 1 2,
        NodeDecl 2 4 ''3'', EdgeDecl 2 1 4,
        NodeDecl 2 7 ''x'', EdgeDecl 2 0 7,
        Close 1,
        Close 0]))
   \<and> run ''(add (mul 2 3) \"x\")'' = Some (Inr (
        ''digraph {\<newline>'' @
        CHR 0x09 # ''subgraph cluster0 {\<newline>'' @
        CHR 0x09 # CHR 0x09 # ''n0 [label=\"add\"];\<newline>'' @
        CHR 0x09 # CHR 0x09 # ''n1 [label=\"mul\"];\<newline>'' @
        CHR 0x09 # CHR 0x09 # ''n0 -> n1;\<newline>'' @
        CHR 0x09 # CHR 0x09 # ''n2 [label=\"2\"];\<newline>'' @
        CHR 0x09 # CHR 0x09 # ''n1 -> n2;\<newline>'' @
        CHR 0x09 # CHR 0x09 # ''n4 [label=\"3\"];\<newline>'' @
        CHR 0x09 # CHR 0x09 # ''n1 -> n4;\<newline>'' @
        CHR 0x09 # CHR 0x09 # ''n7 [label=\"x\"];\<newline>'' @
        CHR 0x09 # CHR 0x09 # ''n0 -> n7;\<newline>'' @
        CHR 0x09 # ''}\<newline>'' @
        ''}\<newline>''))"
  by code_simp

section \<open>String literals\<close>

text \<open>
  Claim C4, as stated, ends: \<^verbatim>\<open>("a (b) c")\<close> parses to one string leaf.  It parses to a
  \<open>List\<close> node: the first token after the parenthesis is the operator of the form, whatever
  its kind, and only later tokens become leaves.
\<close>

theorem string_operand_is_list_operator:
  "parse_file ''(\"a (b) c\")'' =
     Some (Inr ([0], [List \<lparr>view = \<lparr>vbegin = 2, vlength = 7\<rparr>, type = TOKEN_STRING\<rparr> []]))"
  by code_simp

text \<open>
  Claim C4, amended.  Let a quote (double or single) stand at offset \<open>q\<close>, not at the very
  start of the buffer and not behind a backslash, and let the same quote stand at offset
  \<open>k\<close> with neither that quote nor a NUL byte strictly between (and fewer than \<open>2^31\<close> bytes
  between them).  Then the tokenizer returns a string token whose view is exactly the bytes
  strictly between \<open>q\<close> and \<open>k\<close>, unchanged, and leaves the cursor at \<open>k + 1\<close>, past the closing
  quote.  In particular \<^verbatim>\<open>("a (b) c")\<close> parses to one \<open>List\<close> node without children whose
  operator is the string token reading \<^verbatim>\<open>a (b) c\<close>; behind an operator, as in
  \<^verbatim>\<open>(f "a (b) c")\<close>, the same literal is one string leaf reading \<^verbatim>\<open>a (b) c\<close>.
\<close>

theorem string_literal_token:
  assumes "0 < q" "q < k" "k < length src"
    and "src ! q = d" "d = CHR 0x22 \<or> d = CHR 0x27"
    and "src ! (q - 1) \<noteq> CHR 0x5C"
    and "src ! k = d"
    and "d \<notin> set (take (k - q - 1) (drop (q + 1) src))"
    and "CHR 0x00 \<notin> set (take (k - q - 1) (drop (q + 1) src))"
    and "k - q - 1 < 2147483648"
  shows "(\<exists>tok. next_token src q = Inr (tok, k + 1)
           \<and> type tok = TOKEN_STRING
           \<and> vbegin (view tok) = q + 1
           \<and> vbegin (view tok) + nat (vlength (view tok)) = k
           \<and> view_text src (view tok) = Some (take (k - q - 1) (drop (q + 1) src)))
    \<and> parse_file ''(\"a (b) c\")'' =
         Some (Inr ([0], [List \<lparr>view = \<lparr>vbegin = 2, vlength = 7\<rparr>, type = TOKEN_STRING\<rparr> []]))
    \<and> view_text (c_str (read_file ''(\"a (b) c\")'')) \<lparr>vbegin = 2, vlength = 7\<rparr> = Some ''a (b) c''
    \<and> parse_file ''(f \"a (b) c\")'' =
         Some (Inr ([1], [String \<lparr>view = \<lparr>vbegin = 4, vlength = 7\<rparr>, type = TOKEN_STRING\<rparr>,
                          List \<lparr>view = \<lparr>vbegin = 1, vlength = 1\<rparr>, type = TOKEN_IDENTIFIER\<rparr> [0]]))
    \<and> view_text (c_str (read_file ''(f \"a (b) c\")'')) \<lparr>vbegin = 4, vlength = 7\<rparr> = Some ''a (b) c''"
proof -
  have conv: "to_int32 (int k - int q - 1) = int k - int q - 1"
    using assms(2,10) by (intro to_int32_id) auto
  have body: "\<forall>i. q < i \<and> i < k \<longrightarrow> src ! i \<noteq> d \<and> src ! i \<noteq> CHR 0x00"
    using assms(3,8,9) between_in_body [of q _ k src] by metis
  have "next_token src q =
      Inr (\<lparr>view = \<lparr>vbegin = q + 1, vlength = to_int32 (int k - int q - 1)\<rparr>,
            type = TOKEN_STRING\<rparr>, k + 1)"
    using assms(1-7) body by (intro next_token_string) auto
  with conv assms(2,3) have general: "\<exists>tok. next_token src q = Inr (tok, k + 1)
           \<and> type tok = TOKEN_STRING
           \<and> vbegin (view tok) = q + 1
           \<and> vbegin (view tok) + nat (vlength (view tok)) = k
           \<and> view_text src (view tok) = Some (take (k - q - 1) (drop (q + 1) src))"
    by (simp add: view_text_def nat_view_length)
  have e1: "parse_file ''(\"a (b) c\")'' =
         Some (Inr ([0], [List \<lparr>view = \<lparr>vbegin = 2, vlength = 7\<rparr>, type = TOKEN_STRING\<rparr> []]))"
    by code_simp
  have e2: "view_text (c_str (read_file ''(\"a (b) c\")'')) \<lparr>vbegin = 2, vlength = 7\<rparr> = Some ''a (b) c''"
    by code_simp
  have e3: "parse_file ''(f \"a (b) c\")'' =
         Some (Inr ([1], [String \<lparr>view = \<lparr>vbegin = 4, vlength = 7\<rparr>, type = TOKEN_STRING\<rparr>,
                          List \<lparr>view = \<lparr>vbegin = 1, vlength = 1\<rparr>, type = TOKEN_IDENTIFIER\<rparr> [0]]))"
    by code_simp
  have e4: "view_text (c_str (read_file ''(f \"a (b) c\")'')) \<lparr>vbegin = 4, vlength = 7\<rparr> = Some ''a (b) c''"
    by code_simp
  from general e1 e2 e3 e4 show ?thesis by blast
qed

theorem string_literal_token_witness:
  "next_token (c_str (read_file ''(\"a (b) c\")'')) 1 =
     Inr (\<lparr>view = \<lparr>vbegin = 2, vlength = 7\<rparr>, type = TOKEN_STRING\<rparr>, 10)
   \<and> c_str (read_file ''(\"a (b) c\")'') ! 9 = CHR 0x22
   \<and> take 7 (drop 2 (c_str (read_file ''(\"a (b) c\")''))) = ''a (b) c''"
  using string_literal_token [of 1 9 "c_str (read_file ''(\"a (b) c\")'')" "CHR 0x22"]
  by (auto simp: c_str_def read_file_def view_text_def)

section \<open>Unterminated string literals\<close>

text \<open>
  Claim C9.  Let a quote stand at offset \<open>q\<close> (not at the start of the buffer, not behind a
  backslash) and let the first NUL byte behind it stand at offset \<open>k\<close>, with no matching quote
  in between.  The tokenizer reports no error: it returns a string token whose view starts
  behind the quote and ends at the terminator, and it leaves the cursor at \<open>k + 1\<close>, one
  byte past the terminator; when the terminator is the last byte of the buffer, that is
  outside the buffer.
\<close>

theorem unterminated_string_token:
  assumes "0 < q" "q < k" "k < length src"
    and "src ! q = d" "d = CHR 0x22 \<or> d = CHR 0x27"
    and "src ! (q - 1) \<noteq> CHR 0x5C"
    and "src ! k = CHR 0x00"
    and "d \<notin> set (take (k - q - 1) (drop (q + 1) src))"
    and "CHR 0x00 \<notin> set (take (k - q - 1) (drop (q + 1) src))"
    and "k - q - 1 < 2147483648"
  shows "\<exists>tok. next_token src q = Inr (tok, k + 1)
           \<and> type tok = TOKEN_STRING
           \<and> vbegin (view tok) = q + 1
           \<and> vbegin (view tok) + nat (vlength (view tok)) = k
           \<and> view_text src (view tok) = Some (take (k - q - 1) (drop (q + 1) src))
           \<and> (length src = k + 1 \<longrightarrow> deref src (k + 1) = None)"
proof -
  have conv: "to_int32 (int k - int q - 1) = int k - int q - 1"
    using assms(2,10) by (intro to_int32_id) auto
  have body: "\<forall>i. q < i \<and> i < k \<longrightarrow> src ! i \<noteq> d \<and> src ! i \<noteq> CHR 0x00"
    using assms(3,8,9) between_in_body [of q _ k src] by metis
  have "next_token src q =
      Inr (\<lparr>view = \<lparr>vbegin = q + 1, vlength = to_int32 (int k - int q - 1)\<rparr>,
            type = TOKEN_STRING\<rparr>, k + 1)"
    using assms(1-7) body by (intro next_token_string) auto
  with conv assms(2,3) show ?thesis
    by (simp add: view_text_def nat_view_length)
qed

theorem unterminated_string_token_witness:
  "next_token (c_str (read_file ''(\"abc'')) 1 =
     Inr (\<lparr>view = \<lparr>vbegin = 2, vlength = 3\<rparr>, type = TOKEN_STRING\<rparr>, 6)
   \<and> view_text (c_str (read_file ''(\"abc'')) \<lparr>vbegin = 2, vlength = 3\<rparr> = Some ''abc''
   \<and> c_str (read_file ''(\"abc'') ! 5 = CHR 0x00"
  using unterminated_string_token [of 1 5 "c_str (read_file ''(\"abc'')" "CHR 0x22"]
  by (auto simp: c_str_def read_file_def view_text_def)

section \<open>Blank input\<close>

text \<open>
  Claim C8.  When the file holds nothing but whitespace (or nothing at all), parsing returns
  no roots and an empty arena, and rendering succeeds with the text of the outer block only.
\<close>

theorem blank_input_renders_empty_graph:
  assumes "\<forall>c \<in> set ws. is_whitespace c"
  shows "parse_file ws = Some (Inr ([], []))
    \<and> render (c_str (read_file ws)) [] [] = Some (Inr ''digraph {\<newline>}\<newline>'')
    \<and> run ws = Some (Inr ''digraph {\<newline>}\<newline>'')"
proof -
  have p: "parse_file ws = Some (Inr ([], []))"
    using new_Lexer_blank [OF assms, of "[CHR 0x00]"]
    by (simp add: parse_file_def parse_buffer_def read_file_def c_str_def peek_def)
  have r: "render src [] [] = Some (Inr ''digraph {\<newline>}\<newline>'')" for src
    by (simp add: render_def render_stmts_def output_text_def tabs_def)
  from p r show ?thesis
    by (simp add: run_def parse_file_def)
qed

theorem blank_input_renders_empty_graph_witness:
  "parse_file [CHR '' '', CHR 0x0A, CHR 0x09] = Some (Inr ([], []))
    \<and> run [CHR '' '', CHR 0x0A, CHR 0x09] = Some (Inr ''digraph {\<newline>}\<newline>'')
    \<and> parse_file [] = Some (Inr ([], []))
    \<and> run [] = Some (Inr ''digraph {\<newline>}\<newline>'')"
  using blank_input_renders_empty_graph [of "[CHR '' '', CHR 0x0A, CHR 0x09]"]
    blank_input_renders_empty_graph [of "[]"]
  by (simp add: is_whitespace_def)

section \<open>The arena is a forest\<close>

lemma references_append [simp]: "references (xs @ ys) = references xs @ references ys"
  by (simp add: references_def)

lemma references_Nil [simp]: "references [] = []"
  by (simp add: references_def)

lemma references_single [simp]: "references [x] = children_of x"
  by (simp add: references_def)

lemma block_ok_empty: "block_ok base [] []"
  by (simp add: block_ok_def)

lemma block_ok_leaf:
  "children_of x = [] \<Longrightarrow> block_ok base [x] [int base]"
  by (auto simp: block_ok_def)

lemma block_ok_append:
  assumes 1: "block_ok base new1 p1" and 2: "block_ok (base + length new1) new2 p2"
  shows "block_ok base (new1 @ new2) (p1 @ p2)"
proof -
  let ?m = "base + length new1"
  have s1: "set (references new1 @ p1) = {int base ..< int ?m}"
    and s2: "set (references new2 @ p2) = {int ?m ..< int (?m + length new2)}"
    and d1: "distinct (references new1 @ p1)" and d2: "distinct (references new2 @ p2)"
    using 1 2 by (simp_all add: block_ok_def)
  have disj: "set (references new1 @ p1) \<inter> set (references new2 @ p2) = {}"
    unfolding s1 s2 by auto
  have "distinct ((references new1 @ p1) @ (references new2 @ p2))"
    using d1 d2 disj by (simp only: distinct_append simp_thms)
  then have d: "distinct (references (new1 @ new2) @ p1 @ p2)"
    by auto
  have "set (references (new1 @ new2) @ p1 @ p2) =
      set (references new1 @ p1) \<union> set (references new2 @ p2)"
    by auto
  also have "\<dots> = {int base ..< int (base + length (new1 @ new2))}"
    unfolding s1 s2 by auto
  finally have s: "set (references (new1 @ new2) @ p1 @ p2) =
      {int base ..< int (base + length (new1 @ new2))}" .
  have b: "\<forall>j < length (new1 @ new2). \<forall>c \<in> set (children_of ((new1 @ new2) ! j)).
      int base \<le> c \<and> c < int (base + j)"
  proof (intro allI impI ballI)
    fix j c
    assume j: "j < length (new1 @ new2)" and c: "c \<in> set (children_of ((new1 @ new2) ! j))"
    show "int base \<le> c \<and> c < int (base + j)"
    proof (cases "j < length new1")
      case True
      with c 1 show ?thesis by (simp add: block_ok_def nth_append)
    next
      case False
      with j have "j - length new1 < length new2" by simp
      moreover from False c have "c \<in> set (children_of (new2 ! (j - length new1)))"
        by (simp add: nth_append)
      ultimately have "int ?m \<le> c \<and> c < int (?m + (j - length new1))"
        using 2 by (simp add: block_ok_def)
      with False show ?thesis by simp
    qed
  qed
  from b d s show ?thesis unfolding block_ok_def by blast
qed

lemma block_ok_List:
  assumes "block_ok base new children"
  shows "block_ok base (new @ [List op children]) [int (base + length new)]"
proof -
  from assms have s: "set (references new @ children) = {int base ..< int (base + length new)}"
    and d: "distinct (references new @ children)"
    and b: "\<forall>j < length new. \<forall>c \<in> set (children_of (new ! j)). int base \<le> c \<and> c < int (base + j)"
    by (simp_all add: block_ok_def)
  have d': "distinct (references (new @ [List op children]) @ [int (base + length new)])"
    using d s by auto
  have s': "set (references (new @ [List op children]) @ [int (base + length new)]) =
      {int base ..< int (base + length (new @ [List op children]))}"
    using s by auto
  have b': "\<forall>j < length (new @ [List op children]).
      \<forall>c \<in> set (children_of ((new @ [List op children]) ! j)). int base \<le> c \<and> c < int (base + j)"
  proof (intro allI impI ballI)
    fix j c
    assume j: "j < length (new @ [List op children])"
      and c: "c \<in> set (children_of ((new @ [List op children]) ! j))"
    show "int base \<le> c \<and> c < int (base + j)"
    proof (cases "j < length new")
      case True
      with c b show ?thesis by (simp add: nth_append)
    next
      case False
      with j have "j = length new" by simp
      with c have "c \<in> set children" by simp
      with s have "c \<in> {int base ..< int (base + length new)}" by auto
      with \<open>j = length new\<close> show ?thesis by simp
    qed
  qed
  from b' d' s' show ?thesis unfolding block_ok_def by blast
qed

lemma add_eq: "add tree node = (tree @ [node], int (length tree))"
  by (simp add: add_def)

lemma expr_block:
  shows "expr n src lexer tree = Some (Inr (h, lexer', tree')) \<Longrightarrow>
      \<exists>new. tree' = tree @ new \<and> h = int (length tree') - 1 \<and> block_ok (length tree) new [h]"
    and "expr_children n src lexer tree children = Some (Inr (children', lexer', tree')) \<Longrightarrow>
      \<exists>new cs. tree' = tree @ new \<and> children' = children @ cs \<and> block_ok (length tree) new cs"
proof (induction n src lexer tree and n src lexer tree children
    arbitrary: h lexer' tree' and children' lexer' tree' rule: expr_expr_children.induct)
  case (1 src lexer tree)
  then show ?case by simp
next
  case (2 n src lexer tree)
  from "2.prems" obtain t lexer1 op lexer2 where
    a1: "advance src lexer = Inr (t, lexer1)" and t: "type t = TOKEN_LPAREN"
    and a2: "advance src lexer1 = Inr (op, lexer2)"
    by (auto split: sum.splits prod.splits if_splits)
  show ?case
  proof (cases "type op = TOKEN_RPAREN")
    case True
    with "2.prems" a1 t a2 have "tree' = tree @ [Empty]" "h = int (length tree)"
      by (auto simp: add_eq)
    then show ?thesis
      using block_ok_leaf [of Empty "length tree"] by auto
  next
    case False
    with "2.prems" a1 t a2 obtain cs lexer3 tree3 t' lexer4 where
      op: "type op = TOKEN_IDENTIFIER \<or> type op = TOKEN_STRING"
      and c: "expr_children n src lexer2 tree [] = Some (Inr (cs, lexer3, tree3))"
      and a3: "advance src lexer3 = Inr (t', lexer4)"
      and res: "tree' = tree3 @ [List op cs]" "h = int (length tree3)"
      by (auto simp: add_eq split: sum.splits prod.splits if_splits option.splits)
    from "2.IH" [OF a1 refl _ a2 refl False _ c] t op
    obtain new where new: "tree3 = tree @ new" "block_ok (length tree) new cs"
      by auto
    from new(2) have "block_ok (length tree) (new @ [List op cs]) [int (length tree + length new)]"
      by (rule block_ok_List)
    with res new(1) show ?thesis by auto
  qed
next
  case (3 src lexer tree children)
  then show ?case by simp
next
  case (4 n src lexer tree children)
  show ?case
  proof (cases "type (peek lexer) \<noteq> TOKEN_RPAREN \<and> type (peek lexer) \<noteq> TOKEN_EOF")
    case False
    with "4.prems" have "children' = children" "tree' = tree" by auto
    then show ?thesis using block_ok_empty [of "length tree"] by auto
  next
    case cont: True
    consider (lp) "type (peek lexer) = TOKEN_LPAREN"
      | (ident) "type (peek lexer) = TOKEN_IDENTIFIER"
      | (string) "type (peek lexer) = TOKEN_STRING"
      | (none) "type (peek lexer) = TOKEN_NONE"
      using cont by (cases "type (peek lexer)") auto
    then show ?thesis
    proof cases
      case lp
      with "4.prems" cont obtain h1 lexer1 tree1 where
        e: "expr n src lexer tree = Some (Inr (h1, lexer1, tree1))"
        and r: "expr_children n src lexer1 tree1 (children @ [h1]) = Some (Inr (children', lexer', tree'))"
        by (auto split: sum.splits prod.splits option.splits)
      from "4.IH"(1) [OF cont lp e] obtain new1 where
        n1: "tree1 = tree @ new1" "h1 = int (length tree1) - 1" "block_ok (length tree) new1 [h1]"
        by auto
      from "4.IH"(2) [OF cont lp e refl refl refl r] obtain new2 cs2 where
        n2: "tree' = tree1 @ new2" "children' = (children @ [h1]) @ cs2"
          "block_ok (length tree1) new2 cs2"
        by auto
      from n1(3) n2(3) n1(1) have "block_ok (length tree) (new1 @ new2) ([h1] @ cs2)"
        by (intro block_ok_append) simp_all
      with n1(1) n2(1,2) show ?thesis by auto
    next
      case ident
      with "4.prems" cont obtain t lexer1 where
        a: "advance src lexer = Inr (t, lexer1)"
        and r: "expr_children n src lexer1 (tree @ [Identifer t]) (children @ [int (length tree)])
                = Some (Inr (children', lexer', tree'))"
        by (auto simp: add_eq split: sum.splits prod.splits option.splits)
      have ne: "type (peek lexer) \<noteq> TOKEN_LPAREN" using ident by simp
      from "4.IH"(3) [OF cont ne ident a refl _ r] obtain new2 cs2 where
        n2: "tree' = (tree @ [Identifer t]) @ new2" "children' = (children @ [int (length tree)]) @ cs2"
          "block_ok (length (tree @ [Identifer t])) new2 cs2"
        by (auto simp: add_eq)
      have "block_ok (length tree) [Identifer t] [int (length tree)]"
        by (rule block_ok_leaf) simp
      with n2(3) have "block_ok (length tree) ([Identifer t] @ new2) ([int (length tree)] @ cs2)"
        by (intro block_ok_append) simp_all
      with n2(1,2) show ?thesis by auto
    next
      case string
      with "4.prems" cont obtain t lexer1 where
        a: "advance src lexer = Inr (t, lexer1)"
        and r: "expr_children n src lexer1 (tree @ [String t]) (children @ [int (length tree)])
                = Some (Inr (children', lexer', tree'))"
        by (auto simp: add_eq split: sum.splits prod.splits option.splits)
      have ne: "type (peek lexer) \<noteq> TOKEN_LPAREN" "type (peek lexer) \<noteq> TOKEN_IDENTIFIER"
        using string by simp_all
      from "4.IH"(4) [OF cont ne string a refl _ r] obtain new2 cs2 where
        n2: "tree' = (tree @ [String t]) @ new2" "children' = (children @ [int (length tree)]) @ cs2"
          "block_ok (length (tree @ [String t])) new2 cs2"
        by (auto simp: add_eq)
      have "block_ok (length tree) [String t] [int (length tree)]"
        by (rule block_ok_leaf) simp
      with n2(3) have "block_ok (length tree) ([String t] @ new2) ([int (length tree)] @ cs2)"
        by (intro block_ok_append) simp_all
      with n2(1,2) show ?thesis by auto
    next
      case none
      with "4.prems" cont have
        r: "expr_children n src lexer tree children = Some (Inr (children', lexer', tree'))"
        by auto
      have ne: "type (peek lexer) \<noteq> TOKEN_LPAREN" "type (peek lexer) \<noteq> TOKEN_IDENTIFIER"
        "type (peek lexer) \<noteq> TOKEN_STRING"
        using none by simp_all
      from "4.IH"(5) [OF cont ne r] show ?thesis .
    qed
  qed
qed

lemma parse_block:
  "parse n src lexer tree roots = Some (Inr (roots', lexer', tree')) \<Longrightarrow>
     \<exists>new rs. tree' = tree @ new \<and> roots' = roots @ rs \<and> block_ok (length tree) new rs"
proof (induction n src lexer tree roots arbitrary: roots' lexer' tree' rule: parse.induct)
  case (1 src lexer tree roots)
  then show ?case by simp
next
  case (2 n src lexer tree roots)
  show ?case
  proof (cases "type (peek lexer) \<noteq> TOKEN_EOF")
    case False
    with "2.prems" have "roots' = roots" "tree' = tree" by auto
    then show ?thesis using block_ok_empty [of "length tree"] by auto
  next
    case True
    with "2.prems" obtain h1 lexer1 tree1 where
      e: "expr n src lexer tree = Some (Inr (h1, lexer1, tree1))"
      and r: "parse n src lexer1 tree1 (roots @ [h1]) = Some (Inr (roots', lexer', tree'))"
      by (auto split: sum.splits prod.splits option.splits)
    from expr_block(1) [OF e] obtain new1 where
      n1: "tree1 = tree @ new1" "block_ok (length tree) new1 [h1]"
      by auto
    from "2.IH" [OF True e refl refl refl r] obtain new2 rs2 where
      n2: "tree' = tree1 @ new2" "roots' = (roots @ [h1]) @ rs2" "block_ok (length tree1) new2 rs2"
      by auto
    from n1(2) n2(3) n1(1) have "block_ok (length tree) (new1 @ new2) ([h1] @ rs2)"
      by (intro block_ok_append) simp_all
    with n1(1) n2(1,2) show ?thesis by auto
  qed
qed

text \<open>
  Claim C6.  After a successful parse every handle among the children of a \<open>List\<close> node is
  the index of a node that was inserted before that \<open>List\<close> (it is non-negative and smaller
  than the index of the \<open>List\<close>), and every root is an index of the arena: no forward
  reference, hence no cycle.  Moreover no handle is stored twice, and every node of the
  arena is stored exactly once, as a child or as a root: the arena is a forest whose trees
  are the roots.  An insertion into an arena of \<open>n\<close> nodes returns \<open>n\<close>, so the indices
  returned are \<open>0, 1, 2, ...\<close> in the order of insertion.
\<close>

theorem parsed_arena_is_forest:
  assumes "parse_buffer src = Some (Inr (roots, tree))"
  shows "(\<forall>i < length tree. \<forall>c \<in> set (children_of (tree ! i)). 0 \<le> c \<and> c < int i)
       \<and> (\<forall>r \<in> set roots. 0 \<le> r \<and> r < int (length tree))
       \<and> distinct (references tree @ roots)
       \<and> set (references tree @ roots) = {0 ..< int (length tree)}
       \<and> (\<forall>t node. add t node = (t @ [node], int (length t)))"
proof -
  from assms obtain lexer where l: "new_Lexer src = Inr lexer"
    by (cases "new_Lexer src") (simp_all add: parse_buffer_def)
  with assms obtain lexer' where
    "parse (length src + 2) src lexer [] [] = Some (Inr (roots, lexer', tree))"
    by (simp add: parse_buffer_def split: sum.splits option.splits prod.splits)
  from parse_block [OF this] have ok: "block_ok 0 tree roots"
    by simp
  then have s: "set (references tree @ roots) = {0 ..< int (length tree)}"
    and d: "distinct (references tree @ roots)"
    and b: "\<forall>i < length tree. \<forall>c \<in> set (children_of (tree ! i)). 0 \<le> c \<and> c < int i"
    by (simp_all add: block_ok_def)
  from s have r: "\<forall>r \<in> set roots. 0 \<le> r \<and> r < int (length tree)"
    by auto
  from b r d s show ?thesis
    by (simp only: add_eq simp_thms)
qed

theorem parsed_arena_is_forest_witness:
  "parse_buffer (c_str (read_file ''(add (mul 2 3) (neg 4))'')) =
     Some (Inr ([5],
       [Identifer \<lparr>view = \<lparr>vbegin = 10, vlength = 1\<rparr>, type = TOKEN_IDENTIFIER\<rparr>,
        Identifer \<lparr>view = \<lparr>vbegin = 12, vlength = 1\<rparr>, type = TOKEN_IDENTIFIER\<rparr>,
        List \<lparr>view = \<lparr>vbegin = 6, vlength = 3\<rparr>, type = TOKEN_IDENTIFIER\<rparr> [0, 1],
        Identifer \<lparr>view = \<lparr>vbegin = 20, vlength = 1\<rparr>, type = TOKEN_IDENTIFIER\<rparr>,
        List \<lparr>view = \<lparr>vbegin = 16, vlength = 3\<rparr>, type = TOKEN_IDENTIFIER\<rparr> [3],
        List \<lparr>view = \<lparr>vbegin = 1, vlength = 3\<rparr>, type = TOKEN_IDENTIFIER\<rparr> [2, 4]]))
   \<and> distinct ([0, 1, 3, 2, 4] @ [5 :: int])
   \<and> set ([0, 1, 3, 2, 4] @ [5]) = {0 ..< (6 :: int)}"
proof -
  have p: "parse_buffer (c_str (read_file ''(add (mul 2 3) (neg 4))'')) =
     Some (Inr ([5],
       [Identifer \<lparr>view = \<lparr>vbegin = 10, vlength = 1\<rparr>, type = TOKEN_IDENTIFIER\<rparr>,
        Identifer \<lparr>view = \<lparr>vbegin = 12, vlength = 1\<rparr>, type = TOKEN_IDENTIFIER\<rparr>,
        List \<lparr>view = \<lparr>vbegin = 6, vlength = 3\<rparr>, type = TOKEN_IDENTIFIER\<rparr> [0, 1],
        Identifer \<lparr>view = \<lparr>vbegin = 20, vlength = 1\<rparr>, type = TOKEN_IDENTIFIER\<rparr>,
        List \<lparr>view = \<lparr>vbegin = 16, vlength = 3\<rparr>, type = TOKEN_IDENTIFIER\<rparr> [3],
        List \<lparr>view = \<lparr>vbegin = 1, vlength = 3\<rparr>, type = TOKEN_IDENTIFIER\<rparr> [2, 4]]))"
    by code_simp
  have "distinct (references
       [Identifer \<lparr>view = \<lparr>vbegin = 10, vlength = 1\<rparr>, type = TOKEN_IDENTIFIER\<rparr>,
        Identifer \<lparr>view = \<lparr>vbegin = 12, vlength = 1\<rparr>, type = TOKEN_IDENTIFIER\<rparr>,
        List \<lparr>view = \<lparr>vbegin = 6, vlength = 3\<rparr>, type = TOKEN_IDENTIFIER\<rparr> [0, 1],
        Identifer \<lparr>view = \<lparr>vbegin = 20, vlength = 1\<rparr>, type = TOKEN_IDENTIFIER\<rparr>,
        List \<lparr>view = \<lparr>vbegin = 16, vlength = 3\<rparr>, type = TOKEN_IDENTIFIER\<rparr> [3],
        List \<lparr>view = \<lparr>vbegin = 1, vlength = 3\<rparr>, type = TOKEN_IDENTIFIER\<rparr> [2, 4]] @ [5])
     \<and> set (references
       [Identifer \<lparr>view = \<lparr>vbegin = 10, vlength = 1\<rparr>, type = TOKEN_IDENTIFIER\<rparr>,
        Identifer \<lparr>view = \<lparr>vbegin = 12, vlength = 1\<rparr>, type = TOKEN_IDENTIFIER\<rparr>,
        List \<lparr>view = \<lparr>vbegin = 6, vlength = 3\<rparr>, type = TOKEN_IDENTIFIER\<rparr> [0, 1],
        Identifer \<lparr>view = \<lparr>vbegin = 20, vlength = 1\<rparr>, type = TOKEN_IDENTIFIER\<rparr>,
        List \<lparr>view = \<lparr>vbegin = 16, vlength = 3\<rparr>, type = TOKEN_IDENTIFIER\<rparr> [3],
        List \<lparr>view = \<lparr>vbegin = 1, vlength = 3\<rparr>, type = TOKEN_IDENTIFIER\<rparr> [2, 4]] @ [5])
       = {0 ..< int 6}"
    using parsed_arena_is_forest [OF p] by simp
  then have "distinct ([0, 1, 3, 2, 4] @ [5 :: int]) \<and> set ([0, 1, 3, 2, 4] @ [5]) = {0 ..< (6 :: int)}"
    by (simp add: references_def)
  with p show ?thesis by blast
qed

section \<open>Node ids and edges of a rendered output\<close>

lemma node_ids_append [simp]: "node_ids (xs @ ys) = node_ids xs @ node_ids ys"
  by (induction xs rule: node_ids.induct) simp_all

lemma ids_within_Nil [simp]: "ids_within [] lo hi"
  by (simp add: ids_within_def)


lemma ids_within_widen:
  "ids_within xs a b \<Longrightarrow> a' \<le> a \<Longrightarrow> b \<le> b' \<Longrightarrow> ids_within xs a' b'"
  unfolding ids_within_def by force

lemma ids_within_no_ids:
  "node_ids xs = [] \<Longrightarrow> ids_within xs lo hi"
  by (simp add: ids_within_def)














section \<open>Gaps in the node ids\<close>







section \<open>Whitespace between tokens\<close>

lemma nth_mid: "i < length ys \<Longrightarrow> (xs @ ys @ zs) ! (length xs + i) = ys ! i"
  by (simp add: nth_append)

lemma nth_after: "(xs @ ys @ z # zs) ! (length xs + length ys) = z"
  by (simp add: nth_append)

lemma view_text_mid:
  "length ys < 2147483648 \<Longrightarrow>
   view_text (xs @ ys @ zs) \<lparr>vbegin = length xs, vlength = int (length ys)\<rparr> = Some ys"
  by (simp add: view_text_def)

lemma next_token_lparen:
  "p < length src \<Longrightarrow> src ! p = CHR ''('' \<Longrightarrow>
   next_token src p = Inr (\<lparr>view = \<lparr>vbegin = p, vlength = 1\<rparr>, type = TOKEN_LPAREN\<rparr>, p + 1)"
  by (subst next_token.simps) simp

lemma next_token_rparen:
  "p < length src \<Longrightarrow> src ! p = CHR '')'' \<Longrightarrow>
   next_token src p = Inr (\<lparr>view = \<lparr>vbegin = p, vlength = 1\<rparr>, type = TOKEN_RPAREN\<rparr>, p + 1)"
  by (subst next_token.simps) simp

lemma next_token_identifier:
  assumes q: "q < k" "k < length src"
    and first: "src ! q \<noteq> CHR 0x00" "src ! q \<noteq> CHR 0x22" "src ! q \<noteq> CHR 0x27"
      "\<not> is_delimiter (src ! q)"
    and stop: "is_delimiter (src ! k)"
    and body: "\<forall>i. q < i \<and> i < k \<longrightarrow> \<not> is_delimiter (src ! i)"
  shows "next_token src q =
    Inr (\<lparr>view = \<lparr>vbegin = (if src ! q = CHR 0x5C then q + 1 else q),
                  vlength = to_int32 (int k - int (if src ! q = CHR 0x5C then q + 1 else q))\<rparr>,
          type = TOKEN_IDENTIFIER\<rparr>, k)"
proof -
  have loop: "identifier_loop src q = Inr k"
    using q stop body by (intro identifier_loop_stop) (auto simp: is_delimiter_def)
  have start: "is_string_start src q (src ! q) = Inr False"
    using first by (simp add: is_string_start_def)
  from q have "deref src q = Some (src ! q)" by simp
  then show ?thesis
    using loop start first by (subst next_token.simps) (simp add: is_delimiter_def Let_def)
qed

lemma is_whitespace_is_delimiter: "is_whitespace c \<Longrightarrow> is_delimiter c"
  by (simp add: is_delimiter_def)

lemma spelling_not_Nil [simp]: "well_formed l \<Longrightarrow> spelling l \<noteq> []"
  by (cases l) auto

lemma hd_spelling_not_whitespace:
  "well_formed l \<Longrightarrow> \<not> is_whitespace (hd (spelling l))"
  by (cases l) (auto simp: is_whitespace_def is_delimiter_def)

lemma next_token_at_lexeme:
  assumes wf: "well_formed l"
    and rest: "rest \<noteq> []" "\<forall>w. l = Word w \<longrightarrow> is_delimiter (hd rest)"
    and before: "\<forall>d b. l = Quoted d b \<longrightarrow> P \<noteq> [] \<and> last P \<noteq> CHR 0x5C"
  shows "\<exists>tok. next_token (P @ spelling l @ rest) (length P)
             = Inr (tok, length P + length (spelling l))
           \<and> type tok = kind l
           \<and> view_text (P @ spelling l @ rest) (view tok) = Some (token_text l)"
proof (cases l)
  case LParen
  let ?src = "P @ ''('' @ rest"
  have "next_token ?src (length P) =
      Inr (\<lparr>view = \<lparr>vbegin = length P, vlength = 1\<rparr>, type = TOKEN_LPAREN\<rparr>, length P + 1)"
    by (rule next_token_lparen) (simp_all add: nth_append)
  moreover have "view_text ?src \<lparr>vbegin = length P, vlength = int (length ''('')\<rparr> = Some ''(''"
    by (rule view_text_mid) simp
  ultimately show ?thesis using LParen by simp
next
  case RParen
  let ?src = "P @ '')'' @ rest"
  have "next_token ?src (length P) =
      Inr (\<lparr>view = \<lparr>vbegin = length P, vlength = 1\<rparr>, type = TOKEN_RPAREN\<rparr>, length P + 1)"
    by (rule next_token_rparen) (simp_all add: nth_append)
  moreover have "view_text ?src \<lparr>vbegin = length P, vlength = int (length '')'')\<rparr> = Some '')''"
    by (rule view_text_mid) simp
  ultimately show ?thesis using RParen by simp
next
  case (Quoted d b)
  let ?src = "P @ (d # b @ [d]) @ rest"
  let ?q = "length P" and ?k = "length P + 1 + length b"
  from wf Quoted have d: "d = CHR 0x22 \<or> d = CHR 0x27" and nd: "d \<notin> set b"
    and nz: "CHR 0x00 \<notin> set b" and len: "length b < 2147483648" by simp_all
  from before Quoted have P: "P \<noteq> []" "last P \<noteq> CHR 0x5C" by simp_all
  have src_q: "?src ! ?q = d" by (simp add: nth_append)
  have src_k: "?src ! ?k = d"
    using nth_after [of "P @ [d]" b d rest] by simp
  have prev: "?src ! (?q - 1) \<noteq> CHR 0x5C"
    using P by (simp add: nth_append last_conv_nth)
  have body: "\<forall>i. ?q < i \<and> i < ?k \<longrightarrow> ?src ! i \<noteq> d \<and> ?src ! i \<noteq> CHR 0x00"
  proof (intro allI impI)
    fix i assume i: "?q < i \<and> i < ?k"
    then have "i - ?q - 1 < length b" by linarith
    from nth_mid [OF this, of "P @ [d]" "d # rest"] i have "?src ! i = b ! (i - ?q - 1)"
      by simp
    moreover have "b ! (i - ?q - 1) \<in> set b" using \<open>i - ?q - 1 < length b\<close> by simp
    ultimately show "?src ! i \<noteq> d \<and> ?src ! i \<noteq> CHR 0x00" using nd nz by metis
  qed
  have "next_token ?src ?q =
      Inr (\<lparr>view = \<lparr>vbegin = ?q + 1, vlength = to_int32 (int ?k - int ?q - 1)\<rparr>,
            type = TOKEN_STRING\<rparr>, ?k + 1)"
  proof (rule next_token_string [where d = d])
    show "0 < ?q" using P by simp
    show "?q < ?k" by simp
    show "?k < length ?src" by simp
    show "?src ! ?q = d" by (rule src_q)
    show "d = CHR 0x22 \<or> d = CHR 0x27" by (rule d)
    show "?src ! (?q - 1) \<noteq> CHR 0x5C" by (rule prev)
    show "?src ! ?k = d \<or> ?src ! ?k = CHR 0x00" using src_k by simp
    show "\<forall>i. ?q < i \<and> i < ?k \<longrightarrow> ?src ! i \<noteq> d \<and> ?src ! i \<noteq> CHR 0x00" by (rule body)
  qed
  moreover have "to_int32 (int ?k - int ?q - 1) = int (length b)"
    using len by (simp add: to_int32_id)
  moreover have "view_text ?src \<lparr>vbegin = ?q + 1, vlength = int (length b)\<rparr> = Some b"
    using view_text_mid [OF len, of "P @ [d]" "d # rest"] by simp
  ultimately show ?thesis using Quoted by simp
next
  case (Word w)
  let ?src = "P @ w @ rest"
  let ?q = "length P" and ?k = "length P + length w"
  from wf Word have w: "w \<noteq> []" and h: "hd w \<noteq> CHR 0x00" "hd w \<noteq> CHR 0x22" "hd w \<noteq> CHR 0x27"
    and nd: "\<forall>c \<in> set w. \<not> is_delimiter c" and len: "length w < 2147483648" by simp_all
  from rest Word have stop: "is_delimiter (hd rest)" by simp
  have src_q: "?src ! ?q = hd w" using w by (simp add: nth_append hd_conv_nth)
  have src_k: "?src ! ?k = hd rest"
    using rest(1) nth_after [of P w "hd rest" "tl rest"] by simp
  have inside: "\<forall>i. ?q \<le> i \<and> i < ?k \<longrightarrow> \<not> is_delimiter (?src ! i)"
  proof (intro allI impI)
    fix i assume i: "?q \<le> i \<and> i < ?k"
    then have "i - ?q < length w" by linarith
    from nth_mid [OF this, of P rest] i have "?src ! i = w ! (i - ?q)" by simp
    moreover have "w ! (i - ?q) \<in> set w" using \<open>i - ?q < length w\<close> by simp
    ultimately show "\<not> is_delimiter (?src ! i)" using nd by metis
  qed
  have tok: "next_token ?src ?q =
      Inr (\<lparr>view = \<lparr>vbegin = (if ?src ! ?q = CHR 0x5C then ?q + 1 else ?q),
                  vlength = to_int32 (int ?k - int (if ?src ! ?q = CHR 0x5C then ?q + 1 else ?q))\<rparr>,
            type = TOKEN_IDENTIFIER\<rparr>, ?k)"
  proof (rule next_token_identifier)
    show "?q < ?k" using w by simp
    show "?k < length ?src" using rest(1) by simp
    show "?src ! ?q \<noteq> CHR 0x00" "?src ! ?q \<noteq> CHR 0x22" "?src ! ?q \<noteq> CHR 0x27"
      using h src_q by simp_all
    show "\<not> is_delimiter (?src ! ?q)" using inside w by simp
    show "is_delimiter (?src ! ?k)" using stop src_k by simp
    show "\<forall>i. ?q < i \<and> i < ?k \<longrightarrow> \<not> is_delimiter (?src ! i)" using inside by simp
  qed
  show ?thesis
  proof (cases "hd w = CHR 0x5C")
    case False
    have "view_text ?src \<lparr>vbegin = ?q, vlength = int (length w)\<rparr> = Some w"
      by (rule view_text_mid [OF len])
    moreover have "to_int32 (int ?k - int ?q) = int (length w)"
      using len by (simp add: to_int32_id)
    ultimately show ?thesis using tok src_q False Word by simp
  next
    case True
    from w obtain c w' where w': "w = c # w'" by (cases w) auto
    with True have c: "c = CHR 0x5C" by simp
    have "length w' < 2147483648" using len w' by simp
    from view_text_mid [OF this, of "P @ [c]" rest]
    have "view_text ?src \<lparr>vbegin = ?q + 1, vlength = int (length w')\<rparr> = Some w'"
      using w' by simp
    moreover have "to_int32 (int ?k - int (?q + 1)) = int (length w')"
      using len w' by (simp add: to_int32_id)
    ultimately show ?thesis using tok src_q True Word w' by simp
  qed
qed

lemma next_token_skip:
  assumes "list_all is_whitespace ws" "rest \<noteq> []" "\<not> is_whitespace (hd rest)"
  shows "next_token (P @ ws @ rest) (length P) = next_token (P @ ws @ rest) (length P + length ws)"
proof (cases "ws = []")
  case True
  then show ?thesis by simp
next
  case False
  let ?src = "P @ ws @ rest"
  show ?thesis
  proof (rule next_token_whitespace)
    show "length P < length P + length ws" using False by simp
    show "length P + length ws < length ?src" using assms(2) by simp
    show "\<not> is_whitespace (?src ! (length P + length ws))"
      using assms(2,3) nth_after [of P ws "hd rest" "tl rest"] by simp
    show "\<forall>i. length P \<le> i \<and> i < length P + length ws \<longrightarrow> is_whitespace (?src ! i)"
    proof (intro allI impI)
      fix i assume i: "length P \<le> i \<and> i < length P + length ws"
      then have lt: "i - length P < length ws" by linarith
      from nth_mid [OF lt, of P rest] i have "?src ! i = ws ! (i - length P)" by simp
      moreover have "ws ! (i - length P) \<in> set ws" using lt by simp
      ultimately show "is_whitespace (?src ! i)" using assms(1) by (simp add: list_all_iff)
    qed
  qed
qed

lemma view_text_eof:
  "p < length src \<Longrightarrow> src ! p = c \<Longrightarrow> view_text src \<lparr>vbegin = p, vlength = 1\<rparr> = Some [c]"
  by (simp add: view_text_def Cons_nth_drop_Suc [symmetric])

lemma next_token_layout:
  assumes src: "src = P @ layout items @ trailing @ CHR 0x00 # tail"
    and sep: "separated items trailing"
    and quote: "quote_first items \<longrightarrow> P \<noteq> [] \<and> last P \<noteq> CHR 0x5C"
  shows "\<exists>tok p. next_token src (length P) = Inr (tok, p)
           \<and> lexer_at src \<lparr>str = p, lookahead = tok\<rparr> (map snd items)"
proof (cases items)
  case Nil
  let ?p = "length P + length trailing"
  from Nil sep have ws: "list_all is_whitespace trailing" by simp
  from Nil src have s: "src = P @ trailing @ CHR 0x00 # tail" by simp
  have at: "?p < length src" "src ! ?p = CHR 0x00"
    using s nth_after [of P trailing "CHR 0x00" tail] by simp_all
  have "next_token src (length P) = next_token src ?p"
    unfolding s by (rule next_token_skip [OF ws]) (simp_all add: is_whitespace_def)
  also have "\<dots> = Inr (\<lparr>view = \<lparr>vbegin = ?p, vlength = 1\<rparr>, type = TOKEN_EOF\<rparr>, ?p)"
    by (rule next_token_eof [OF at])
  finally show ?thesis
    using Nil at view_text_eof [OF at] by (simp add: lexer_at_def)
next
  case (Cons it items')
  obtain ws l where it: "it = (ws, l)" by (cases it)
  let ?P = "P @ ws" and ?rest = "layout items' @ trailing @ CHR 0x00 # tail"
  from sep Cons it have ws: "list_all is_whitespace ws" and wf: "well_formed l"
    and word: "is_Word l \<longrightarrow> starts_with_delimiter (layout items' @ trailing)"
    and sep': "separated items' trailing" by simp_all
  from src Cons it have s: "src = P @ ws @ (spelling l @ ?rest)" by simp
  have nw: "\<not> is_whitespace (hd (spelling l @ ?rest))"
    using hd_spelling_not_whitespace [OF wf] wf by simp
  have skip: "next_token src (length P) = next_token src (length ?P)"
    unfolding s using next_token_skip [OF ws _ nw, of P] wf by simp
  have s': "src = ?P @ spelling l @ ?rest" using s by simp
  have rest: "\<forall>w. l = Word w \<longrightarrow> is_delimiter (hd ?rest)"
  proof (intro allI impI)
    fix w assume "l = Word w"
    with word have ne: "layout items' @ trailing \<noteq> []"
      and d: "is_delimiter (hd (layout items' @ trailing))"
      by (simp_all add: starts_with_delimiter_def)
    from ne have "hd ((layout items' @ trailing) @ CHR 0x00 # tail) = hd (layout items' @ trailing)"
      by (rule hd_append2)
    with d show "is_delimiter (hd ?rest)" by simp
  qed
  have before: "\<forall>d b. l = Quoted d b \<longrightarrow> ?P \<noteq> [] \<and> last ?P \<noteq> CHR 0x5C"
  proof (intro allI impI)
    fix d b assume q: "l = Quoted d b"
    show "?P \<noteq> [] \<and> last ?P \<noteq> CHR 0x5C"
    proof (cases "ws = []")
      case True
      with q Cons it quote show ?thesis by simp
    next
      case False
      then have "last ws \<in> set ws" by simp
      with ws have "is_whitespace (last ws)" by (simp add: list_all_iff)
      then have "last ws \<noteq> CHR 0x5C" by (auto simp: is_whitespace_def)
      with False show ?thesis by simp
    qed
  qed
  from next_token_at_lexeme [OF wf _ rest before, of] obtain tok where
    tok: "next_token (?P @ spelling l @ ?rest) (length ?P) = Inr (tok, length ?P + length (spelling l))"
      "type tok = kind l"
      "view_text (?P @ spelling l @ ?rest) (view tok) = Some (token_text l)"
    by blast
  let ?P' = "?P @ spelling l"
  have quote': "quote_first items' \<longrightarrow> ?P' \<noteq> [] \<and> last ?P' \<noteq> CHR 0x5C"
  proof
    assume qf: "quote_first items'"
    then obtain d b rest' where items': "items' = ([], Quoted d b) # rest'"
      by (cases items' rule: quote_first.cases) auto
    from sep' items' have d: "d = CHR 0x22 \<or> d = CHR 0x27" by simp
    have "\<not> is_Word l"
    proof
      assume "is_Word l"
      with word items' have "is_delimiter d" by (simp add: starts_with_delimiter_def)
      with d show False by (auto simp: is_delimiter_def is_whitespace_def)
    qed
    then have "last (spelling l) \<noteq> CHR 0x5C"
      using wf by (cases l) auto
    then show "?P' \<noteq> [] \<and> last ?P' \<noteq> CHR 0x5C" using wf by simp
  qed
  have "lexer_at src \<lparr>str = length ?P', lookahead = tok\<rparr> (map snd items)"
    unfolding lexer_at_def
  proof (intro conjI)
    show "type (lookahead \<lparr>str = length ?P', lookahead = tok\<rparr>) = a_peek (map snd items)"
      using tok(2) Cons it by simp
    show "view_text src (view (lookahead \<lparr>str = length ?P', lookahead = tok\<rparr>)) = a_text (map snd items)"
      using tok(3) Cons it s' by simp
    have "\<exists>P0 items0 trailing0 tail0.
               src = P0 @ layout items0 @ trailing0 @ CHR 0x00 # tail0
             \<and> str \<lparr>str = length ?P', lookahead = tok\<rparr> = length P0
             \<and> map snd items0 = tl (map snd items)
             \<and> separated items0 trailing0
             \<and> (quote_first items0 \<longrightarrow> P0 \<noteq> [] \<and> last P0 \<noteq> CHR 0x5C)"
      using s' sep' quote' Cons it
      by (intro exI [of _ ?P'] exI [of _ items'] exI [of _ trailing] exI [of _ tail]) simp
    then show "if map snd items = [] then
        str \<lparr>str = length ?P', lookahead = tok\<rparr> < length src
        \<and> src ! str \<lparr>str = length ?P', lookahead = tok\<rparr> = CHR 0x00
      else \<exists>P0 items0 trailing0 tail0.
               src = P0 @ layout items0 @ trailing0 @ CHR 0x00 # tail0
             \<and> str \<lparr>str = length ?P', lookahead = tok\<rparr> = length P0
             \<and> map snd items0 = tl (map snd items)
             \<and> separated items0 trailing0
             \<and> (quote_first items0 \<longrightarrow> P0 \<noteq> [] \<and> last P0 \<noteq> CHR 0x5C)"
      using Cons by simp
  qed
  with skip tok(1) s' show ?thesis by (auto simp: add.assoc)
qed

lemma advance_at:
  assumes "lexer_at src lexer ls"
  shows "\<exists>lexer'. advance src lexer = Inr (lookahead lexer, lexer') \<and> lexer_at src lexer' (tl ls)"
proof (cases ls)
  case Nil
  with assms have at: "str lexer < length src" "src ! str lexer = CHR 0x00"
    by (simp_all add: lexer_at_def)
  from next_token_eof [OF at] view_text_eof [OF at] at Nil show ?thesis
    by (simp add: advance_def peek_def lexer_at_def)
next
  case (Cons l rest)
  with assms obtain P items trailing tail where
    src: "src = P @ layout items @ trailing @ CHR 0x00 # tail"
    and p: "str lexer = length P" and items: "map snd items = rest"
    and sep: "separated items trailing"
    and quote: "quote_first items \<longrightarrow> P \<noteq> [] \<and> last P \<noteq> CHR 0x5C"
    by (auto simp: lexer_at_def)
  from next_token_layout [OF src sep quote] obtain tok q where
    "next_token src (length P) = Inr (tok, q)"
    "lexer_at src \<lparr>str = q, lookahead = tok\<rparr> (map snd items)"
    by blast
  with p items Cons show ?thesis
    by (simp add: advance_def peek_def)
qed

lemma new_Lexer_at:
  assumes src: "src = layout items @ trailing @ CHR 0x00 # tail"
    and sep: "separated items trailing"
    and quote: "\<not> quote_first items"
  shows "\<exists>lexer. new_Lexer src = Inr lexer \<and> lexer_at src lexer (map snd items)"
proof -
  from src have "src = [] @ layout items @ trailing @ CHR 0x00 # tail" by simp
  from next_token_layout [OF this sep] quote obtain tok q where
    "next_token src (length ([] :: string)) = Inr (tok, q)"
    "lexer_at src \<lparr>str = q, lookahead = tok\<rparr> (map snd items)"
    by blast
  then show ?thesis by (simp add: new_Lexer_def)
qed

lemma lexer_at_peek: "lexer_at src lexer ls \<Longrightarrow> type (peek lexer) = a_peek ls"
  by (simp add: lexer_at_def peek_def)

lemma lexer_at_text:
  "lexer_at src lexer ls \<Longrightarrow> view_text src (view (lookahead lexer)) = a_text ls"
  by (simp add: lexer_at_def)

lemma sim_None [simp]: "sim src None a \<longleftrightarrow> a = None"
  by (simp add: sim_def)

lemma sim_Inl [simp]: "sim src (Some (Inl e)) a \<longleftrightarrow> a = Some (Inl ())"
  by (simp add: sim_def)

lemma sim_Inr [simp]:
  "sim src (Some (Inr (x, lexer', tree'))) a \<longleftrightarrow>
     (\<exists>ls'. a = Some (Inr (x, ls', map (shape_of src) tree')) \<and> lexer_at src lexer' ls')"
  by (simp add: sim_def)

lemma expr_sim:
  shows "lexer_at src lexer ls \<Longrightarrow>
      sim src (expr n src lexer tree) (a_expr n ls (map (shape_of src) tree))"
    and "lexer_at src lexer ls \<Longrightarrow>
      sim src (expr_children n src lexer tree children)
        (a_children n ls (map (shape_of src) tree) children)"
proof (induction n src lexer tree and n src lexer tree children
    arbitrary: ls and ls rule: expr_expr_children.induct)
  case (1 src lexer tree)
  then show ?case by simp
next
  case (2 n src lexer tree)
  from advance_at [OF "2.prems"] obtain lexer1 where
    a1: "advance src lexer = Inr (lookahead lexer, lexer1)" and l1: "lexer_at src lexer1 (tl ls)"
    by blast
  from advance_at [OF l1] obtain lexer2 where
    a2: "advance src lexer1 = Inr (lookahead lexer1, lexer2)" and l2: "lexer_at src lexer2 (tl (tl ls))"
    by blast
  have t: "type (lookahead lexer) = a_peek ls"
    using "2.prems" by (simp add: lexer_at_def)
  have op: "type (lookahead lexer1) = a_peek (tl ls)"
    "view_text src (view (lookahead lexer1)) = a_text (tl ls)"
    using l1 by (simp_all add: lexer_at_def)
  show ?case
  proof (cases "a_peek ls = TOKEN_LPAREN")
    case False
    with a1 t show ?thesis by simp
  next
    case lp: True
    show ?thesis
    proof (cases "a_peek (tl ls) = TOKEN_RPAREN")
      case True
      with a1 a2 t op lp l2 show ?thesis by (simp add: add_eq)
    next
      case nrp: False
      show ?thesis
      proof (cases "a_peek (tl ls) \<noteq> TOKEN_IDENTIFIER \<and> a_peek (tl ls) \<noteq> TOKEN_STRING")
        case True
        with a1 a2 t op lp nrp show ?thesis by simp
      next
        case False
        have ih: "sim src (expr_children n src lexer2 tree [])
            (a_children n (tl (tl ls)) (map (shape_of src) tree) [])"
          using "2.IH" [OF a1 refl _ a2 refl _ _ l2] t op lp nrp False by simp
        show ?thesis
        proof (cases "expr_children n src lexer2 tree []")
          case None
          with ih a1 a2 t op lp nrp False show ?thesis by simp
        next
          case (Some r)
          show ?thesis
          proof (cases r)
            case (Inl e)
            with Some ih a1 a2 t op lp nrp False show ?thesis by simp
          next
            case (Inr res)
            obtain cs lexer3 tree3 where res: "res = (cs, lexer3, tree3)" by (cases res)
            from ih Some Inr res obtain ls3 where
              ac: "a_children n (tl (tl ls)) (map (shape_of src) tree) []
                    = Some (Inr (cs, ls3, map (shape_of src) tree3))"
              and l3: "lexer_at src lexer3 ls3" by auto
            from advance_at [OF l3] obtain lexer4 where
              a3: "advance src lexer3 = Inr (lookahead lexer3, lexer4)"
              and l4: "lexer_at src lexer4 (tl ls3)" by blast
            have t': "type (lookahead lexer3) = a_peek ls3"
              using l3 by (simp add: lexer_at_def)
            from Some Inr res ac a1 a2 a3 t op lp nrp False t' l4 show ?thesis
              by (auto simp: add_eq)
          qed
        qed
      qed
    qed
  qed
next
  case (3 src lexer tree children)
  then show ?case by simp
next
  case (4 n src lexer tree children)
  have pk: "type (peek lexer) = a_peek ls"
    using "4.prems" by (rule lexer_at_peek)
  have tx: "view_text src (view (lookahead lexer)) = a_text ls"
    using "4.prems" by (rule lexer_at_text)
  show ?case
  proof (cases "a_peek ls \<noteq> TOKEN_RPAREN \<and> a_peek ls \<noteq> TOKEN_EOF")
    case False
    with pk "4.prems" show ?thesis by auto
  next
    case cont: True
    then have cont': "type (peek lexer) \<noteq> TOKEN_RPAREN \<and> type (peek lexer) \<noteq> TOKEN_EOF"
      using pk by simp
    consider (lp) "a_peek ls = TOKEN_LPAREN" | (ident) "a_peek ls = TOKEN_IDENTIFIER"
      | (string) "a_peek ls = TOKEN_STRING" | (none) "a_peek ls = TOKEN_NONE"
      using cont by (cases "a_peek ls") auto
    then show ?thesis
    proof cases
      case lp
      then have lp': "type (peek lexer) = TOKEN_LPAREN" using pk by simp
      have ih: "sim src (expr n src lexer tree) (a_expr n ls (map (shape_of src) tree))"
        using "4.IH"(1) [OF cont' lp' "4.prems"] .
      show ?thesis
      proof (cases "expr n src lexer tree")
        case None
        with ih pk cont lp show ?thesis by simp
      next
        case (Some r)
        show ?thesis
        proof (cases r)
          case (Inl e)
          with Some ih pk cont lp show ?thesis by simp
        next
          case (Inr res)
          obtain h lexer1 tree1 where res: "res = (h, lexer1, tree1)" by (cases res)
          from ih Some Inr res obtain ls1 where
            ae: "a_expr n ls (map (shape_of src) tree) = Some (Inr (h, ls1, map (shape_of src) tree1))"
            and l1: "lexer_at src lexer1 ls1" by auto
          have e: "expr n src lexer tree = Some (Inr (h, lexer1, tree1))"
            using Some Inr res by simp
          from "4.IH"(2) [OF cont' lp' e refl refl refl l1]
          have "sim src (expr_children n src lexer1 tree1 (children @ [h]))
              (a_children n ls1 (map (shape_of src) tree1) (children @ [h]))" .
          with e ae pk cont lp show ?thesis by simp
        qed
      qed
    next
      case ident
      then have ne: "type (peek lexer) \<noteq> TOKEN_LPAREN" and id: "type (peek lexer) = TOKEN_IDENTIFIER"
        using pk by simp_all
      from advance_at [OF "4.prems"] obtain lexer1 where
        a1: "advance src lexer = Inr (lookahead lexer, lexer1)" and l1: "lexer_at src lexer1 (tl ls)"
        by blast
      from "4.IH"(3) [OF cont' ne id a1 refl _ l1]
      have "sim src (expr_children n src lexer1 (tree @ [Identifer (lookahead lexer)])
              (children @ [int (length tree)]))
            (a_children n (tl ls) (map (shape_of src) (tree @ [Identifer (lookahead lexer)]))
              (children @ [int (length tree)]))"
        by (simp add: add_eq)
      with a1 pk cont ident tx show ?thesis by (simp add: add_eq)
    next
      case string
      then have ne: "type (peek lexer) \<noteq> TOKEN_LPAREN" "type (peek lexer) \<noteq> TOKEN_IDENTIFIER"
        and st: "type (peek lexer) = TOKEN_STRING"
        using pk by simp_all
      from advance_at [OF "4.prems"] obtain lexer1 where
        a1: "advance src lexer = Inr (lookahead lexer, lexer1)" and l1: "lexer_at src lexer1 (tl ls)"
        by blast
      from "4.IH"(4) [OF cont' ne st a1 refl _ l1]
      have "sim src (expr_children n src lexer1 (tree @ [String (lookahead lexer)])
              (children @ [int (length tree)]))
            (a_children n (tl ls) (map (shape_of src) (tree @ [String (lookahead lexer)]))
              (children @ [int (length tree)]))"
        by (simp add: add_eq)
      with a1 pk cont string tx show ?thesis by (simp add: add_eq)
    next
      case none
      then have ne: "type (peek lexer) \<noteq> TOKEN_LPAREN" "type (peek lexer) \<noteq> TOKEN_IDENTIFIER"
        "type (peek lexer) \<noteq> TOKEN_STRING"
        using pk by simp_all
      from "4.IH"(5) [OF cont' ne "4.prems"] pk cont none show ?thesis by simp
    qed
  qed
qed

lemma parse_sim:
  "lexer_at src lexer ls \<Longrightarrow>
     sim src (parse n src lexer tree roots) (a_parse n ls (map (shape_of src) tree) roots)"
proof (induction n src lexer tree roots arbitrary: ls rule: parse.induct)
  case (1 src lexer tree roots)
  then show ?case by simp
next
  case (2 n src lexer tree roots)
  have pk: "type (peek lexer) = a_peek ls"
    using "2.prems" by (rule lexer_at_peek)
  show ?case
  proof (cases "a_peek ls \<noteq> TOKEN_EOF")
    case False
    with pk "2.prems" show ?thesis by auto
  next
    case True
    then have cont: "type (peek lexer) \<noteq> TOKEN_EOF" using pk by simp
    have ih: "sim src (expr n src lexer tree) (a_expr n ls (map (shape_of src) tree))"
      using "2.prems" by (rule expr_sim(1))
    show ?thesis
    proof (cases "expr n src lexer tree")
      case None
      with ih pk True show ?thesis by simp
    next
      case (Some r)
      show ?thesis
      proof (cases r)
        case (Inl e)
        with Some ih pk True show ?thesis by simp
      next
        case (Inr res)
        obtain h lexer1 tree1 where res: "res = (h, lexer1, tree1)" by (cases res)
        from ih Some Inr res obtain ls1 where
          ae: "a_expr n ls (map (shape_of src) tree) = Some (Inr (h, ls1, map (shape_of src) tree1))"
          and l1: "lexer_at src lexer1 ls1" by auto
        have e: "expr n src lexer tree = Some (Inr (h, lexer1, tree1))"
          using Some Inr res by simp
        from "2.IH" [OF cont e refl refl refl l1]
        have "sim src (parse n src lexer1 tree1 (roots @ [h]))
            (a_parse n ls1 (map (shape_of src) tree1) (roots @ [h]))" .
        with e ae pk True show ?thesis by simp
      qed
    qed
  qed
qed

lemma a_peek_not_NONE [simp]: "a_peek ls \<noteq> TOKEN_NONE"
proof (cases ls)
  case Nil
  then show ?thesis by simp
next
  case (Cons l rest)
  then show ?thesis by (cases l) simp_all
qed

lemma a_peek_not_EOF: "a_peek ls \<noteq> TOKEN_EOF \<Longrightarrow> ls \<noteq> []"
  by (cases ls) simp_all

lemma a_expr_shrinks:
  shows "a_expr n ls tree = Some (Inr (h, ls', tree')) \<Longrightarrow> length ls' + 2 \<le> length ls"
    and "a_children n ls tree children = Some (Inr (children', ls', tree')) \<Longrightarrow>
      length ls' \<le> length ls"
proof (induction n ls tree and n ls tree children
    arbitrary: h ls' tree' and children' ls' tree' rule: a_expr_a_children.induct)
  case (1 ls tree)
  then show ?case by simp
next
  case (2 n ls tree)
  from "2.prems" have lp: "a_peek ls = TOKEN_LPAREN"
    by (auto split: if_splits)
  then have ne: "ls \<noteq> []" by (auto dest: a_peek_not_EOF)
  show ?case
  proof (cases "a_peek (tl ls) = TOKEN_RPAREN")
    case True
    then have "tl ls \<noteq> []" by (auto dest: a_peek_not_EOF)
    with "2.prems" lp True ne show ?thesis by (cases ls; cases "tl ls") auto
  next
    case False
    with "2.prems" lp obtain cs ls3 tree3 where
      op: "\<not> (a_peek (tl ls) \<noteq> TOKEN_IDENTIFIER \<and> a_peek (tl ls) \<noteq> TOKEN_STRING)"
      and c: "a_children n (tl (tl ls)) tree [] = Some (Inr (cs, ls3, tree3))"
      and rp: "a_peek ls3 = TOKEN_RPAREN" and r: "ls' = tl ls3"
      by (auto split: if_splits option.splits sum.splits prod.splits)
    from op have "tl ls \<noteq> []" by (auto dest: a_peek_not_EOF)
    from "2.IH" [OF _ False _ c] lp op have "length ls3 \<le> length (tl (tl ls))" by simp
    with r ne \<open>tl ls \<noteq> []\<close> show ?thesis by (cases ls; cases "tl ls") auto
  qed
next
  case (3 ls tree children)
  then show ?case by simp
next
  case (4 n ls tree children)
  show ?case
  proof (cases "a_peek ls \<noteq> TOKEN_RPAREN \<and> a_peek ls \<noteq> TOKEN_EOF")
    case False
    with "4.prems" show ?thesis by auto
  next
    case cont: True
    consider (lp) "a_peek ls = TOKEN_LPAREN" | (ident) "a_peek ls = TOKEN_IDENTIFIER"
      | (string) "a_peek ls = TOKEN_STRING"
      using cont a_peek_not_NONE [of ls] by (cases "a_peek ls") auto
    then show ?thesis
    proof cases
      case lp
      with "4.prems" cont obtain h ls1 tree1 where
        e: "a_expr n ls tree = Some (Inr (h, ls1, tree1))"
        and r: "a_children n ls1 tree1 (children @ [h]) = Some (Inr (children', ls', tree'))"
        by (auto split: option.splits sum.splits prod.splits)
      from "4.IH"(1) [OF cont lp e] have "length ls1 + 2 \<le> length ls" .
      moreover from "4.IH"(2) [OF cont lp e refl refl refl r] have "length ls' \<le> length ls1" .
      ultimately show ?thesis by simp
    next
      case ident
      with "4.prems" cont have
        r: "a_children n (tl ls) (tree @ [ShIdentifer (a_text ls)]) (children @ [int (length tree)])
            = Some (Inr (children', ls', tree'))" by simp
      from "4.IH"(3) [OF cont _ ident r] ident have "length ls' \<le> length (tl ls)" by simp
      then show ?thesis by simp
    next
      case string
      with "4.prems" cont have
        r: "a_children n (tl ls) (tree @ [ShString (a_text ls)]) (children @ [int (length tree)])
            = Some (Inr (children', ls', tree'))" by simp
      from "4.IH"(4) [OF cont _ _ string r] string have "length ls' \<le> length (tl ls)" by simp
      then show ?thesis by simp
    qed
  qed
qed

lemma a_expr_more_fuel_step:
  "(\<forall>ls tree r. a_expr n ls tree = Some r \<longrightarrow> a_expr (Suc n) ls tree = Some r)
   \<and> (\<forall>ls tree children r. a_children n ls tree children = Some r \<longrightarrow>
          a_children (Suc n) ls tree children = Some r)"
proof (induction n)
  case 0
  show ?case by simp
next
  case (Suc n)
  then have ihe: "\<And>ls tree r. a_expr n ls tree = Some r \<Longrightarrow> a_expr (Suc n) ls tree = Some r"
    and ihc: "\<And>ls tree children r. a_children n ls tree children = Some r \<Longrightarrow>
          a_children (Suc n) ls tree children = Some r"
    by blast+
  have e: "a_expr (Suc (Suc n)) ls tree = Some r" if r: "a_expr (Suc n) ls tree = Some r"
    for ls tree r
  proof (cases "a_children n (tl (tl ls)) tree []")
    case None
    with r have "a_expr (Suc (Suc n)) ls tree = a_expr (Suc n) ls tree"
      by (subst a_expr.simps(2) [of "Suc n"], subst (asm) a_expr.simps(2) [of n])
         (auto simp del: a_expr.simps a_children.simps split: if_splits)
    with r show ?thesis by simp
  next
    case (Some x)
    from ihc [OF Some] Some have "a_expr (Suc (Suc n)) ls tree = a_expr (Suc n) ls tree"
      by (subst a_expr.simps(2) [of "Suc n"], subst a_expr.simps(2) [of n])
         (simp del: a_expr.simps a_children.simps)
    with r show ?thesis by simp
  qed
  have c: "a_children (Suc (Suc n)) ls tree children = Some r"
    if r: "a_children (Suc n) ls tree children = Some r" for ls tree children r
  proof -
    have unfold: "a_children (Suc m) ls tree children =
     (if a_peek ls \<noteq> TOKEN_RPAREN \<and> a_peek ls \<noteq> TOKEN_EOF then
        if a_peek ls = TOKEN_LPAREN then
          (case a_expr m ls tree of
             None \<Rightarrow> None
           | Some (Inl e) \<Rightarrow> Some (Inl ())
           | Some (Inr (h, ls', tree')) \<Rightarrow> a_children m ls' tree' (children @ [h]))
        else if a_peek ls = TOKEN_IDENTIFIER then
          a_children m (tl ls) (tree @ [ShIdentifer (a_text ls)]) (children @ [int (length tree)])
        else if a_peek ls = TOKEN_STRING then
          a_children m (tl ls) (tree @ [ShString (a_text ls)]) (children @ [int (length tree)])
        else a_children m ls tree children
      else Some (Inr (children, ls, tree)))" for m
      by (rule a_children.simps(2))
    note r' = r [unfolded unfold [of n]]
    show ?thesis
    proof (cases "a_peek ls \<noteq> TOKEN_RPAREN \<and> a_peek ls \<noteq> TOKEN_EOF")
      case False
      with r' show ?thesis
        by (subst unfold [of "Suc n"]) (auto simp del: a_expr.simps a_children.simps)
    next
      case cont: True
      consider (lp) "a_peek ls = TOKEN_LPAREN" | (ident) "a_peek ls = TOKEN_IDENTIFIER"
        | (string) "a_peek ls = TOKEN_STRING"
        using cont a_peek_not_NONE [of ls] by (cases "a_peek ls") auto
      then show ?thesis
      proof cases
        case lp
        from r' cont lp obtain x where x: "a_expr n ls tree = Some x"
          by (cases "a_expr n ls tree") (simp_all del: a_expr.simps a_children.simps)
        note x' = ihe [OF x]
        show ?thesis
        proof (cases x)
          case (Inl u)
          with r' x x' cont lp show ?thesis
            by (subst unfold [of "Suc n"]) (simp del: a_expr.simps a_children.simps)
        next
          case (Inr res)
          obtain h ls1 tree1 where res: "res = (h, ls1, tree1)" by (cases res)
          from r' x Inr res cont lp have "a_children n ls1 tree1 (children @ [h]) = Some r"
            by (simp del: a_expr.simps a_children.simps)
          from ihc [OF this] x' Inr res cont lp show ?thesis
            by (subst unfold [of "Suc n"]) (simp del: a_expr.simps a_children.simps)
        qed
      next
        case ident
        with r' cont have "a_children n (tl ls) (tree @ [ShIdentifer (a_text ls)])
            (children @ [int (length tree)]) = Some r"
          by (simp del: a_expr.simps a_children.simps)
        from ihc [OF this] cont ident show ?thesis
          by (subst unfold [of "Suc n"]) (simp del: a_expr.simps a_children.simps)
      next
        case string
        with r' cont have "a_children n (tl ls) (tree @ [ShString (a_text ls)])
            (children @ [int (length tree)]) = Some r"
          by (simp del: a_expr.simps a_children.simps)
        from ihc [OF this] cont string show ?thesis
          by (subst unfold [of "Suc n"]) (simp del: a_expr.simps a_children.simps)
      qed
    qed
  qed
  from e c show ?case by blast
qed

lemma a_expr_more_fuel:
  assumes "n \<le> m"
  shows "a_expr n ls tree = Some r \<Longrightarrow> a_expr m ls tree = Some r"
    and "a_children n ls tree children = Some r' \<Longrightarrow> a_children m ls tree children = Some r'"
  using assms
proof (induction m)
  case 0
  { case 1 then show ?case by simp }
  { case 2 then show ?case by simp }
next
  case (Suc m)
  { case 1
    show ?case
    proof (cases "n = Suc m")
      case True
      with 1 show ?thesis by simp
    next
      case False
      with 1 have "n \<le> m" by simp
      from Suc.IH(1) [OF "1"(1) this] a_expr_more_fuel_step [of m] show ?thesis by blast
    qed }
  { case 2
    show ?case
    proof (cases "n = Suc m")
      case True
      with 2 show ?thesis by simp
    next
      case False
      with 2 have "n \<le> m" by simp
      from Suc.IH(2) [OF "2"(1) this] a_expr_more_fuel_step [of m] show ?thesis by blast
    qed }
qed

lemma a_expr_total:
  "(\<forall>ls tree. length ls \<le> n \<and> 0 < n \<longrightarrow> a_expr n ls tree \<noteq> None)
   \<and> (\<forall>ls tree children. length ls < n \<longrightarrow> a_children n ls tree children \<noteq> None)"
proof (induction n)
  case 0
  show ?case by simp
next
  case (Suc n)
  then have ihe: "\<And>ls tree. length ls \<le> n \<Longrightarrow> 0 < n \<Longrightarrow> a_expr n ls tree \<noteq> None"
    and ihc: "\<And>ls tree children. length ls < n \<Longrightarrow> a_children n ls tree children \<noteq> None"
    by blast+
  have e: "a_expr (Suc n) ls tree \<noteq> None" if len: "length ls \<le> Suc n" for ls tree
  proof (cases "a_peek ls = TOKEN_LPAREN \<and> a_peek (tl ls) \<noteq> TOKEN_RPAREN
      \<and> (a_peek (tl ls) = TOKEN_IDENTIFIER \<or> a_peek (tl ls) = TOKEN_STRING)")
    case False
    then show ?thesis
      by (subst a_expr.simps(2)) (auto simp del: a_expr.simps a_children.simps)
  next
    case True
    then have "ls \<noteq> []" "tl ls \<noteq> []" by (auto dest: a_peek_not_EOF)
    then have "length (tl (tl ls)) + 2 = length ls" by (cases ls; cases "tl ls") auto
    with len have "length (tl (tl ls)) < n" by simp
    from ihc [OF this] obtain x where "a_children n (tl (tl ls)) tree [] = Some x" by blast
    with True show ?thesis
      by (subst a_expr.simps(2))
         (auto simp del: a_expr.simps a_children.simps split: sum.splits prod.splits)
  qed
  have c: "a_children (Suc n) ls tree children \<noteq> None" if len: "length ls < Suc n"
    for ls tree children
  proof (cases "a_peek ls \<noteq> TOKEN_RPAREN \<and> a_peek ls \<noteq> TOKEN_EOF")
    case False
    then show ?thesis
      by (subst a_children.simps(2)) (auto simp del: a_expr.simps a_children.simps)
  next
    case cont: True
    then have ne: "ls \<noteq> []" by (auto dest: a_peek_not_EOF)
    with len have n: "0 < n" "length ls \<le> n" "length (tl ls) < n" by (cases ls; simp)+
    consider (lp) "a_peek ls = TOKEN_LPAREN" | (ident) "a_peek ls = TOKEN_IDENTIFIER"
      | (string) "a_peek ls = TOKEN_STRING"
      using cont a_peek_not_NONE [of ls] by (cases "a_peek ls") auto
    then show ?thesis
    proof cases
      case lp
      from ihe [OF n(2,1)] obtain x where x: "a_expr n ls tree = Some x" by blast
      show ?thesis
      proof (cases x)
        case (Inl u)
        with x cont lp show ?thesis
          by (subst a_children.simps(2)) (simp del: a_expr.simps a_children.simps)
      next
        case (Inr res)
        obtain h ls1 tree1 where res: "res = (h, ls1, tree1)" by (cases res)
        from a_expr_shrinks(1) [of n ls tree h ls1 tree1] x Inr res n(2)
        have "length ls1 < n" by simp
        from ihc [OF this] x Inr res cont lp show ?thesis
          by (subst a_children.simps(2)) (simp del: a_expr.simps a_children.simps)
      qed
    next
      case ident
      with ihc [OF n(3)] cont show ?thesis
        by (subst a_children.simps(2)) (simp del: a_expr.simps a_children.simps)
    next
      case string
      with ihc [OF n(3)] cont show ?thesis
        by (subst a_children.simps(2)) (simp del: a_expr.simps a_children.simps)
    qed
  qed
  from e c show ?case by blast
qed

lemma a_parse_more_fuel:
  "n \<le> m \<Longrightarrow> a_parse n ls tree roots = Some r \<Longrightarrow> a_parse m ls tree roots = Some r"
proof (induction n arbitrary: m ls tree roots)
  case 0
  then show ?case by simp
next
  case (Suc n)
  from Suc.prems(1) obtain m' where m: "m = Suc m'" "n \<le> m'" by (cases m) auto
  show ?case
  proof (cases "a_peek ls \<noteq> TOKEN_EOF")
    case False
    with Suc.prems(2) m show ?thesis by simp
  next
    case True
    with Suc.prems(2) obtain x where x: "a_expr n ls tree = Some x"
      by (cases "a_expr n ls tree") simp_all
    from a_expr_more_fuel(1) [OF m(2) x] have x': "a_expr m' ls tree = Some x" .
    show ?thesis
    proof (cases x)
      case (Inl u)
      with Suc.prems(2) x x' True m show ?thesis by simp
    next
      case (Inr res)
      obtain h ls1 tree1 where res: "res = (h, ls1, tree1)" by (cases res)
      from Suc.prems(2) x Inr res True have "a_parse n ls1 tree1 (roots @ [h]) = Some r" by simp
      from Suc.IH [OF m(2) this] x' Inr res True m show ?thesis by simp
    qed
  qed
qed

lemma a_parse_total:
  "length ls < n \<Longrightarrow> a_parse n ls tree roots \<noteq> None"
proof (induction n arbitrary: ls tree roots)
  case 0
  then show ?case by simp
next
  case (Suc n)
  show ?case
  proof (cases "a_peek ls \<noteq> TOKEN_EOF")
    case False
    then show ?thesis by simp
  next
    case True
    then have "ls \<noteq> []" by (auto dest: a_peek_not_EOF)
    with Suc.prems have n: "0 < n" "length ls \<le> n" by (cases ls; simp)+
    from a_expr_total [of n] n obtain x where x: "a_expr n ls tree = Some x" by blast
    show ?thesis
    proof (cases x)
      case (Inl u)
      with x True show ?thesis by simp
    next
      case (Inr res)
      obtain h ls1 tree1 where res: "res = (h, ls1, tree1)" by (cases res)
      from a_expr_shrinks(1) [of n ls tree h ls1 tree1] x Inr res n(2)
      have "length ls1 < n" by simp
      from Suc.IH [OF this] x Inr res True show ?thesis by simp
    qed
  qed
qed

lemma a_parse_fuel_irrelevant:
  assumes "length ls < n" "length ls < m"
  shows "a_parse n ls tree roots = a_parse m ls tree roots"
proof -
  from a_parse_total [OF assms(1)] obtain r where r: "a_parse n ls tree roots = Some r" by blast
  from a_parse_total [OF assms(2)] obtain r' where r': "a_parse m ls tree roots = Some r'" by blast
  show ?thesis
  proof (cases "n \<le> m")
    case True
    from a_parse_more_fuel [OF True r] r r' show ?thesis by simp
  next
    case False
    then have "m \<le> n" by simp
    from a_parse_more_fuel [OF this r'] r r' show ?thesis by simp
  qed
qed

lemma length_layout: "separated items trailing \<Longrightarrow> length items \<le> length (layout items)"
proof (induction items)
  case Nil
  then show ?case by simp
next
  case (Cons it items)
  obtain ws l where it: "it = (ws, l)" by (cases it)
  with Cons.prems have "well_formed l" "separated items trailing" by simp_all
  then have "0 < length (spelling l)" "length items \<le> length (layout items)"
    using Cons.IH by simp_all
  with it show ?case by (simp del: length_greater_0_conv)
qed

lemma parse_buffer_layout:
  assumes sep: "separated items trailing" and quote: "\<not> quote_first items"
    and src: "src = c_str (read_file (layout items @ trailing))"
  shows "ast_shape src (parse_buffer src) = a_shape (length src + 2) (map snd items)
     \<and> parse_buffer src \<noteq> None"
proof -
  have s: "src = layout items @ trailing @ CHR 0x00 # [CHR 0x00]"
    using src by (simp add: c_str_def read_file_def)
  from new_Lexer_at [OF s sep quote] obtain lexer where
    l: "new_Lexer src = Inr lexer" and at: "lexer_at src lexer (map snd items)" by blast
  define n where "n = length src + 2"
  have len: "length (map snd items) < n"
    using length_layout [OF sep] s by (simp add: n_def)
  from parse_sim [OF at, of n "[]" "[]"]
  have sim: "sim src (parse n src lexer [] []) (a_parse n (map snd items) [] [])" by simp
  from a_parse_total [OF len] obtain a where
    a: "a_parse n (map snd items) [] [] = Some a" by blast
  have pb: "parse_buffer src =
     (case parse n src lexer [] [] of
        None \<Rightarrow> None
      | Some (Inl e) \<Rightarrow> Some (Inl e)
      | Some (Inr (roots, lexer', tree)) \<Rightarrow> Some (Inr (roots, tree)))"
    using l by (simp add: parse_buffer_def n_def)
  have sh: "a_shape (length src + 2) (map snd items) =
     (case a_parse n (map snd items) [] [] of
        Some (Inr (roots, ls', tree)) \<Rightarrow> Some (roots, tree)
      | _ \<Rightarrow> None)"
    by (simp add: a_shape_def n_def)
  show ?thesis
  proof (cases "parse n src lexer [] []")
    case None
    with sim a show ?thesis by simp
  next
    case (Some r)
    show ?thesis
    proof (cases r)
      case (Inl e)
      with Some sim show ?thesis
        unfolding pb sh by (simp add: ast_shape_def)
    next
      case (Inr res)
      obtain roots lexer' tree where res: "res = (roots, lexer', tree)" by (cases res)
      with Some Inr sim show ?thesis
        unfolding pb sh by (auto simp: ast_shape_def)
    qed
  qed
qed

lemma parse_buffer_quote_first:
  assumes sep: "separated items trailing" and quote: "quote_first items"
    and src: "src = c_str (read_file (layout items @ trailing))"
  shows "parse_buffer src = Some (Inl OutOfBounds)
     \<and> (\<exists>d body rest. map snd items = Quoted d body # rest)"
proof -
  from quote obtain d b rest where items: "items = ([], Quoted d b) # rest"
    by (cases items rule: quote_first.cases) auto
  with sep have d: "d = CHR 0x22 \<or> d = CHR 0x27" by simp
  from items src obtain more where s: "src = d # more"
    by (simp add: c_str_def read_file_def)
  have "is_string_start src 0 d = Inl OutOfBounds"
    using d by (auto simp: is_string_start_def deref_prev_def)
  moreover have "deref src 0 = Some d" using s by (simp add: deref_def)
  moreover from d have "d \<noteq> CHR 0x00" "d \<noteq> CHR ''(''" "d \<noteq> CHR '')''" by auto
  ultimately have "next_token src 0 = Inl OutOfBounds"
    by (subst next_token.simps) simp
  then show ?thesis using items by (simp add: parse_buffer_def new_Lexer_def)
qed

lemma a_shape_Quoted: "a_shape (Suc (Suc n)) (Quoted d body # rest) = None"
  by (simp add: a_shape_def a_parse.simps(2) [of "Suc n"] a_expr.simps(2) [of n]
      del: a_parse.simps a_expr.simps)

lemma ast_shape_layout:
  assumes sep: "separated items trailing"
    and src: "src = c_str (read_file (layout items @ trailing))"
  shows "ast_shape src (parse_buffer src) = a_shape (length (map snd items) + 2) (map snd items)
     \<and> parse_buffer src \<noteq> None"
proof (cases "quote_first items")
  case True
  from parse_buffer_quote_first [OF sep True src] have
    p: "parse_buffer src = Some (Inl OutOfBounds)"
    and ex: "\<exists>d body rest. map snd items = Quoted d body # rest" by simp_all
  from ex obtain d body rest where ls: "map snd items = Quoted d body # rest"
    by (elim exE)
  have "a_shape (Suc (Suc (Suc (length rest)))) (Quoted d body # rest) = None"
    by (rule a_shape_Quoted)
  with ls have "a_shape (length (map snd items) + 2) (map snd items) = None"
    by (simp del: a_parse.simps a_expr.simps)
  with p show ?thesis by (simp add: ast_shape_def)
next
  case False
  let ?ls = "map snd items"
  from parse_buffer_layout [OF sep False src] have
    p: "ast_shape src (parse_buffer src) = a_shape (length src + 2) ?ls"
    and t: "parse_buffer src \<noteq> None" by simp_all
  have "length ?ls \<le> length src"
    using length_layout [OF sep] src by (simp add: c_str_def read_file_def)
  then have "a_parse (length src + 2) ?ls [] [] = a_parse (length ?ls + 2) ?ls [] []"
    by (intro a_parse_fuel_irrelevant) simp_all
  then have "a_shape (length src + 2) ?ls = a_shape (length ?ls + 2) ?ls"
    by (simp add: a_shape_def)
  with p t show ?thesis by simp
qed

text \<open>
  Claim C5.  A file is laid out from a sequence of lexemes (parentheses, quoted strings,
  words), each behind a run of whitespace bytes, with a last run behind them all; a word is
  always followed by whitespace or a parenthesis, since it would otherwise run into its
  neighbour.  Two files laid out from the same lexemes, whatever the runs of whitespace
  (space, newline, tab, vertical tab, form feed, in any number and mixture), parse alike:
  either both are rejected, or both parses return the same roots and arenas that agree
  node by node in the kind of the node, in the text of its token and in its children.
  Neither parse runs out of fuel.
\<close>

theorem whitespace_between_tokens_does_not_change_the_tree:
  assumes "separated items1 trailing1" and "separated items2 trailing2"
    and "map snd items1 = map snd items2"
  shows "ast_shape (c_str (read_file (layout items1 @ trailing1)))
           (parse_file (layout items1 @ trailing1))
       = ast_shape (c_str (read_file (layout items2 @ trailing2)))
           (parse_file (layout items2 @ trailing2))
     \<and> parse_file (layout items1 @ trailing1) \<noteq> None
     \<and> parse_file (layout items2 @ trailing2) \<noteq> None"
  using ast_shape_layout [OF assms(1) refl] ast_shape_layout [OF assms(2) refl] assms(3)
  by (simp add: parse_file_def)

theorem whitespace_between_tokens_does_not_change_the_tree_witness:
  "layout [([], LParen), ([], Word ''a''), ('' '', Word ''b''), ([], RParen)] @ [] = ''(a b)''
   \<and> layout [(''  '', LParen), ([], Word ''a''), ([CHR 0x0A, CHR 0x09], Word ''b''), ('' '', RParen)]
         @ [CHR 0x0A]
       = [CHR '' '', CHR '' '', CHR ''('', CHR ''a'', CHR 0x0A, CHR 0x09, CHR ''b'', CHR '' '',
          CHR '')'', CHR 0x0A]
   \<and> ast_shape (c_str (read_file ''(a b)'')) (parse_file ''(a b)'')
       = ast_shape
           (c_str (read_file [CHR '' '', CHR '' '', CHR ''('', CHR ''a'', CHR 0x0A, CHR 0x09,
                              CHR ''b'', CHR '' '', CHR '')'', CHR 0x0A]))
           (parse_file [CHR '' '', CHR '' '', CHR ''('', CHR ''a'', CHR 0x0A, CHR 0x09,
                        CHR ''b'', CHR '' '', CHR '')'', CHR 0x0A])
   \<and> ast_shape (c_str (read_file ''(a b)'')) (parse_file ''(a b)'')
       = Some ([1], [ShIdentifer (Some ''b''), ShList TOKEN_IDENTIFIER (Some ''a'') [0]])"
proof -
  let ?items1 = "[([], LParen), ([], Word ''a''), ('' '', Word ''b''), ([], RParen)]"
  let ?items2 = "[(''  '', LParen), ([], Word ''a''), ([CHR 0x0A, CHR 0x09], Word ''b''), ('' '', RParen)]"
  have s1: "separated ?items1 []"
    by (simp add: is_whitespace_def starts_with_delimiter_def is_delimiter_def)
  have s2: "separated ?items2 [CHR 0x0A]"
    by (simp add: is_whitespace_def starts_with_delimiter_def is_delimiter_def)
  have same: "map snd ?items1 = map snd ?items2" by simp
  have l1: "layout ?items1 @ [] = ''(a b)''" by simp
  have l2: "layout ?items2 @ [CHR 0x0A]
       = [CHR '' '', CHR '' '', CHR ''('', CHR ''a'', CHR 0x0A, CHR 0x09, CHR ''b'', CHR '' '',
          CHR '')'', CHR 0x0A]" by simp
  have v: "ast_shape (c_str (read_file ''(a b)'')) (parse_file ''(a b)'')
       = Some ([1], [ShIdentifer (Some ''b''), ShList TOKEN_IDENTIFIER (Some ''a'') [0]])"
    by code_simp
  from whitespace_between_tokens_does_not_change_the_tree [OF s1 s2 same]
  have "ast_shape (c_str (read_file (layout ?items1 @ []))) (parse_file (layout ?items1 @ []))
       = ast_shape (c_str (read_file (layout ?items2 @ [CHR 0x0A])))
           (parse_file (layout ?items2 @ [CHR 0x0A]))"
    by (rule conjunct1)
  then have "ast_shape (c_str (read_file ''(a b)'')) (parse_file ''(a b)'')
       = ast_shape
           (c_str (read_file [CHR '' '', CHR '' '', CHR ''('', CHR ''a'', CHR 0x0A, CHR 0x09,
                              CHR ''b'', CHR '' '', CHR '')'', CHR 0x0A]))
           (parse_file [CHR '' '', CHR '' '', CHR ''('', CHR ''a'', CHR 0x0A, CHR 0x09,
                        CHR ''b'', CHR '' '', CHR '')'', CHR 0x0A])"
    unfolding l1 l2 .
  with l1 l2 v show ?thesis by (intro conjI)
qed

section \<open>The fuel suffices\<close>

text \<open>
  The tokenizer moves the cursor forward with every token but the end of input, so the
  depth of the parser's recursion is bounded by the length of the buffer: \<open>parse_buffer\<close>
  never runs out of fuel.  The children of a parsed \<open>List\<close> lie below it in the arena, so
  the depth of \<open>render_nodes\<close> is bounded by the length of the arena: rendering a parsed
  arena never runs out of fuel either.
\<close>

lemma string_loop_advances:
  "string_loop src delim ptr = Inr p \<Longrightarrow> ptr < p \<and> p < length src"
proof (induction src delim ptr rule: string_loop.induct)
  case (1 src delim ptr)
  from "1.prems" obtain c where c: "deref src (ptr + 1) = Some c"
    by (subst (asm) string_loop.simps) (auto split: option.splits)
  then have lt: "ptr + 1 < length src" by (auto simp: deref_def split: if_splits)
  show ?case
  proof (cases "c \<noteq> delim \<and> c \<noteq> CHR 0x00")
    case True
    with "1.prems" c have "string_loop src delim (ptr + 1) = Inr p"
      by (subst (asm) string_loop.simps) simp
    from "1.IH" [OF c True this] show ?thesis by simp
  next
    case False
    with "1.prems" c have "p = ptr + 1"
      by (subst (asm) string_loop.simps) auto
    with lt show ?thesis by simp
  qed
qed

lemma identifier_loop_advances:
  "identifier_loop src ptr = Inr p \<Longrightarrow> ptr < p \<and> p < length src"
proof (induction src ptr rule: identifier_loop.induct)
  case (1 src ptr)
  from "1.prems" obtain c where c: "deref src (ptr + 1) = Some c"
    by (subst (asm) identifier_loop.simps) (auto split: option.splits)
  then have lt: "ptr + 1 < length src" by (auto simp: deref_def split: if_splits)
  show ?case
  proof (cases "\<not> is_whitespace c \<and> \<not> (c = CHR ''('' \<or> c = CHR '')'')")
    case True
    with "1.prems" c have "identifier_loop src (ptr + 1) = Inr p"
      by (subst (asm) identifier_loop.simps) simp
    from "1.IH" [OF c True this] show ?thesis by simp
  next
    case False
    with "1.prems" c have "p = ptr + 1"
      by (subst (asm) identifier_loop.simps) auto
    with lt show ?thesis by simp
  qed
qed

lemma next_token_progress:
  "next_token src ptr = Inr (tok, p) \<Longrightarrow>
     type tok \<noteq> TOKEN_NONE \<and> ptr \<le> p \<and> p \<le> length src
     \<and> (type tok \<noteq> TOKEN_EOF \<longrightarrow> ptr < p)"
proof (induction src ptr rule: next_token.induct)
  case (1 src ptr)
  from "1.prems" obtain c where c: "deref src ptr = Some c"
    by (subst (asm) next_token.simps) (auto split: option.splits)
  then have lt: "ptr < length src" by (auto simp: deref_def split: if_splits)
  note unfolded = "1.prems" [unfolded next_token.simps [of src ptr], unfolded c, simplified]
  show ?case
  proof (cases "c = CHR 0x00 \<or> c = CHR ''('' \<or> c = CHR '')''")
    case True
    with unfolded lt show ?thesis by (auto split: if_splits)
  next
    case False
    show ?thesis
    proof (cases "is_string_start src ptr c")
      case (Inl e)
      with unfolded False show ?thesis by simp
    next
      case (Inr b)
      show ?thesis
      proof (cases b)
        case True
        with unfolded False Inr obtain q where q: "string_loop src c ptr = Inr q"
          and r: "p = q + 1" "type tok = TOKEN_STRING"
          by (auto split: sum.splits)
        from string_loop_advances [OF q] r show ?thesis by simp
      next
        case nb: False
        show ?thesis
        proof (cases "is_whitespace c")
          case False
          with unfolded \<open>\<not> (c = CHR 0x00 \<or> c = CHR ''('' \<or> c = CHR '')'')\<close> Inr nb
          obtain q where q: "identifier_loop src ptr = Inr q"
            and r: "p = q" "type tok = TOKEN_IDENTIFIER"
            by (auto simp: Let_def split: sum.splits)
          from identifier_loop_advances [OF q] r show ?thesis by simp
        next
          case True
          with unfolded \<open>\<not> (c = CHR 0x00 \<or> c = CHR ''('' \<or> c = CHR '')'')\<close> Inr nb
          obtain q where q: "whitespace_loop src ptr = Inr q"
            and r: "next_token src q = Inr (tok, p)"
            by (auto split: sum.splits)
          from \<open>\<not> (c = CHR 0x00 \<or> c = CHR ''('' \<or> c = CHR '')'')\<close>
          have ne: "c \<noteq> CHR 0x00" "c \<noteq> CHR ''(''" "c \<noteq> CHR '')''" by simp_all
          from "1.IH" [OF c ne Inr _ _ True q r] nb True
          have ih: "type tok \<noteq> TOKEN_NONE \<and> q \<le> p \<and> p \<le> length src
              \<and> (type tok \<noteq> TOKEN_EOF \<longrightarrow> q < p)" by simp
          from whitespace_loop_advances [OF q] have "ptr < q" by simp
          with ih show ?thesis
            by (auto split: if_splits)
        qed
      qed
    qed
  qed
qed

lemma advance_progress:
  assumes "advance src lexer = Inr (t, lexer')"
  shows "t = lookahead lexer \<and> type (lookahead lexer') \<noteq> TOKEN_NONE
       \<and> remaining src lexer' \<le> remaining src lexer
       \<and> (type (lookahead lexer) \<noteq> TOKEN_EOF \<longrightarrow> remaining src lexer' < remaining src lexer)"
proof -
  from assms obtain tok p where n: "next_token src (str lexer) = Inr (tok, p)"
    and r: "t = lookahead lexer" "lexer' = \<lparr>str = p, lookahead = tok\<rparr>"
    by (auto simp: advance_def peek_def split: sum.splits)
  from next_token_progress [OF n] have "type tok \<noteq> TOKEN_NONE" "str lexer \<le> p" "p \<le> length src"
    "type tok \<noteq> TOKEN_EOF \<longrightarrow> str lexer < p" by simp_all
  with r show ?thesis by (auto simp: remaining_def)
qed

lemma expr_shrinks:
  shows "expr n src lexer tree = Some (Inr (h, lexer', tree')) \<Longrightarrow>
      type (lookahead lexer') \<noteq> TOKEN_NONE \<and> remaining src lexer' + 2 \<le> remaining src lexer"
    and "expr_children n src lexer tree children = Some (Inr (children', lexer', tree')) \<Longrightarrow>
      type (lookahead lexer) \<noteq> TOKEN_NONE \<Longrightarrow>
      type (lookahead lexer') \<noteq> TOKEN_NONE \<and> remaining src lexer' \<le> remaining src lexer"
proof (induction n src lexer tree and n src lexer tree children
    arbitrary: h lexer' tree' and children' lexer' tree' rule: expr_expr_children.induct)
  case (1 src lexer tree)
  then show ?case by simp
next
  case (2 n src lexer tree)
  from "2.prems" obtain t lexer1 op lexer2 where
    a1: "advance src lexer = Inr (t, lexer1)" and t: "type t = TOKEN_LPAREN"
    and a2: "advance src lexer1 = Inr (op, lexer2)"
    by (auto split: sum.splits prod.splits if_splits)
  note p1 = advance_progress [OF a1] and p2 = advance_progress [OF a2]
  show ?case
  proof (cases "type op = TOKEN_RPAREN")
    case True
    with "2.prems" a1 t a2 have "lexer' = lexer2" by (auto simp: add_eq)
    with p1 p2 t True show ?thesis by auto
  next
    case False
    with "2.prems" a1 t a2 obtain cs lexer3 tree3 t' where
      op: "type op = TOKEN_IDENTIFIER \<or> type op = TOKEN_STRING"
      and c: "expr_children n src lexer2 tree [] = Some (Inr (cs, lexer3, tree3))"
      and a3: "advance src lexer3 = Inr (t', lexer')"
      by (auto simp: add_eq split: sum.splits prod.splits if_splits option.splits)
    from "2.IH" [OF a1 refl _ a2 refl False _ c] t op p2
    have "type (lookahead lexer3) \<noteq> TOKEN_NONE \<and> remaining src lexer3 \<le> remaining src lexer2"
      by auto
    with p1 p2 advance_progress [OF a3] t op show ?thesis by auto
  qed
next
  case (3 src lexer tree children)
  then show ?case by simp
next
  case (4 n src lexer tree children)
  show ?case
  proof (cases "type (peek lexer) \<noteq> TOKEN_RPAREN \<and> type (peek lexer) \<noteq> TOKEN_EOF")
    case False
    with "4.prems" show ?thesis by auto
  next
    case cont: True
    consider (lp) "type (peek lexer) = TOKEN_LPAREN"
      | (ident) "type (peek lexer) = TOKEN_IDENTIFIER"
      | (string) "type (peek lexer) = TOKEN_STRING"
      using cont "4.prems"(2) by (cases "type (peek lexer)") (auto simp: peek_def)
    then show ?thesis
    proof cases
      case lp
      with "4.prems" cont obtain h1 lexer1 tree1 where
        e: "expr n src lexer tree = Some (Inr (h1, lexer1, tree1))"
        and r: "expr_children n src lexer1 tree1 (children @ [h1]) = Some (Inr (children', lexer', tree'))"
        by (auto split: sum.splits prod.splits option.splits)
      from "4.IH"(1) [OF cont lp e] have
        s1: "type (lookahead lexer1) \<noteq> TOKEN_NONE" "remaining src lexer1 + 2 \<le> remaining src lexer"
        by simp_all
      from "4.IH"(2) [OF cont lp e refl refl refl r s1(1)] s1(2) show ?thesis by simp
    next
      case ident
      with "4.prems" cont obtain t lexer1 where
        a: "advance src lexer = Inr (t, lexer1)"
        and r: "expr_children n src lexer1 (tree @ [Identifer t]) (children @ [int (length tree)])
                = Some (Inr (children', lexer', tree'))"
        by (auto simp: add_eq split: sum.splits prod.splits option.splits)
      have ne: "type (peek lexer) \<noteq> TOKEN_LPAREN" using ident by simp
      note p = advance_progress [OF a]
      from "4.IH"(3) [OF cont ne ident a refl _ r] p
      have "type (lookahead lexer') \<noteq> TOKEN_NONE \<and> remaining src lexer' \<le> remaining src lexer1"
        by (simp add: add_eq)
      with p show ?thesis by simp
    next
      case string
      with "4.prems" cont obtain t lexer1 where
        a: "advance src lexer = Inr (t, lexer1)"
        and r: "expr_children n src lexer1 (tree @ [String t]) (children @ [int (length tree)])
                = Some (Inr (children', lexer', tree'))"
        by (auto simp: add_eq split: sum.splits prod.splits option.splits)
      have ne: "type (peek lexer) \<noteq> TOKEN_LPAREN" "type (peek lexer) \<noteq> TOKEN_IDENTIFIER"
        using string by simp_all
      note p = advance_progress [OF a]
      from "4.IH"(4) [OF cont ne string a refl _ r] p
      have "type (lookahead lexer') \<noteq> TOKEN_NONE \<and> remaining src lexer' \<le> remaining src lexer1"
        by (simp add: add_eq)
      with p show ?thesis by simp
    qed
  qed
qed

lemma expr_total:
  "(\<forall>lexer tree. remaining src lexer \<le> n \<and> 0 < n \<longrightarrow> expr n src lexer tree \<noteq> None)
   \<and> (\<forall>lexer tree children. type (lookahead lexer) \<noteq> TOKEN_NONE \<and> remaining src lexer < n \<longrightarrow>
          expr_children n src lexer tree children \<noteq> None)"
proof (induction n)
  case 0
  show ?case by simp
next
  case (Suc n)
  then have ihe: "\<And>lexer tree. remaining src lexer \<le> n \<Longrightarrow> 0 < n \<Longrightarrow> expr n src lexer tree \<noteq> None"
    and ihc: "\<And>lexer tree children. type (lookahead lexer) \<noteq> TOKEN_NONE \<Longrightarrow>
          remaining src lexer < n \<Longrightarrow> expr_children n src lexer tree children \<noteq> None"
    by blast+
  have e: "expr (Suc n) src lexer tree \<noteq> None" if len: "remaining src lexer \<le> Suc n"
    for lexer tree
  proof (cases "advance src lexer")
    case (Inl err)
    then show ?thesis by simp
  next
    case (Inr r1)
    obtain t lexer1 where r1: "r1 = (t, lexer1)" by (cases r1)
    note a1 = Inr [unfolded r1]
    show ?thesis
    proof (cases "advance src lexer1")
      case (Inl err)
      with a1 show ?thesis by simp
    next
      case (Inr r2)
      obtain op lexer2 where r2: "r2 = (op, lexer2)" by (cases r2)
      note a2 = Inr [unfolded r2]
      show ?thesis
      proof (cases "type t = TOKEN_LPAREN \<and> type op \<noteq> TOKEN_RPAREN
          \<and> (type op = TOKEN_IDENTIFIER \<or> type op = TOKEN_STRING)")
        case False
        with a1 a2 show ?thesis by (auto simp: add_eq)
      next
        case True
        from advance_progress [OF a1] advance_progress [OF a2] True
        have "type (lookahead lexer2) \<noteq> TOKEN_NONE" "remaining src lexer2 + 2 \<le> remaining src lexer"
          by auto
        with len have "type (lookahead lexer2) \<noteq> TOKEN_NONE" "remaining src lexer2 < n" by simp_all
        from ihc [OF this] obtain x where x: "expr_children n src lexer2 tree [] = Some x" by blast
        with a1 a2 True show ?thesis
          by (auto simp: add_eq split: sum.splits prod.splits)
      qed
    qed
  qed
  have c: "expr_children (Suc n) src lexer tree children \<noteq> None"
    if ok: "type (lookahead lexer) \<noteq> TOKEN_NONE" and len: "remaining src lexer < Suc n"
    for lexer tree children
  proof (cases "type (peek lexer) \<noteq> TOKEN_RPAREN \<and> type (peek lexer) \<noteq> TOKEN_EOF")
    case False
    then show ?thesis by auto
  next
    case cont: True
    then have "0 < remaining src lexer" by (simp add: remaining_def peek_def)
    with len have n: "0 < n" "remaining src lexer \<le> n" by simp_all
    consider (lp) "type (peek lexer) = TOKEN_LPAREN"
      | (ident) "type (peek lexer) = TOKEN_IDENTIFIER"
      | (string) "type (peek lexer) = TOKEN_STRING"
      using cont ok by (cases "type (peek lexer)") (auto simp: peek_def)
    then show ?thesis
    proof cases
      case lp
      from ihe [OF n(2,1)] obtain x where x: "expr n src lexer tree = Some x" by blast
      show ?thesis
      proof (cases x)
        case (Inl err)
        with x cont lp show ?thesis by simp
      next
        case (Inr res)
        obtain h lexer1 tree1 where res: "res = (h, lexer1, tree1)" by (cases res)
        from expr_shrinks(1) [of n src lexer tree h lexer1 tree1] x Inr res n(2)
        have "type (lookahead lexer1) \<noteq> TOKEN_NONE" "remaining src lexer1 < n" by simp_all
        from ihc [OF this] x Inr res cont lp show ?thesis by simp
      qed
    next
      case ident
      show ?thesis
      proof (cases "advance src lexer")
        case (Inl err)
        with cont ident show ?thesis by simp
      next
        case (Inr r1)
        obtain t lexer1 where r1: "r1 = (t, lexer1)" by (cases r1)
        from advance_progress [OF Inr [unfolded r1]] cont n(2)
        have "type (lookahead lexer1) \<noteq> TOKEN_NONE" "remaining src lexer1 < n"
          by (auto simp: peek_def)
        from ihc [OF this] Inr r1 cont ident show ?thesis by (simp add: add_eq)
      qed
    next
      case string
      show ?thesis
      proof (cases "advance src lexer")
        case (Inl err)
        with cont string show ?thesis by simp
      next
        case (Inr r1)
        obtain t lexer1 where r1: "r1 = (t, lexer1)" by (cases r1)
        from advance_progress [OF Inr [unfolded r1]] cont n(2)
        have "type (lookahead lexer1) \<noteq> TOKEN_NONE" "remaining src lexer1 < n"
          by (auto simp: peek_def)
        from ihc [OF this] Inr r1 cont string show ?thesis by (simp add: add_eq)
      qed
    qed
  qed
  from e c show ?case by blast
qed

lemma parse_total:
  "remaining src lexer < n \<Longrightarrow> parse n src lexer tree roots \<noteq> None"
proof (induction n arbitrary: lexer tree roots)
  case 0
  then show ?case by simp
next
  case (Suc n)
  show ?case
  proof (cases "type (peek lexer) \<noteq> TOKEN_EOF")
    case False
    then show ?thesis by simp
  next
    case True
    then have "0 < remaining src lexer" by (simp add: remaining_def peek_def)
    with Suc.prems have n: "0 < n" "remaining src lexer \<le> n" by simp_all
    from expr_total [of src n] n obtain x where x: "expr n src lexer tree = Some x" by blast
    show ?thesis
    proof (cases x)
      case (Inl err)
      with x True show ?thesis by simp
    next
      case (Inr res)
      obtain h lexer1 tree1 where res: "res = (h, lexer1, tree1)" by (cases res)
      from expr_shrinks(1) [of n src lexer tree h lexer1 tree1] x Inr res n(2)
      have "remaining src lexer1 < n" by simp
      from Suc.IH [OF this] x Inr res True show ?thesis by simp
    qed
  qed
qed

lemma parse_buffer_returns: "parse_buffer src \<noteq> None"
proof (cases "new_Lexer src")
  case (Inl err)
  then show ?thesis by (simp add: parse_buffer_def)
next
  case (Inr lexer)
  then obtain tok p where n: "next_token src 0 = Inr (tok, p)"
    and l: "lexer = \<lparr>str = p, lookahead = tok\<rparr>"
    by (auto simp: new_Lexer_def split: sum.splits)
  from l have "remaining src lexer < length src + 2" by (auto simp: remaining_def)
  from parse_total [OF this] obtain x where
    "parse (length src + 2) src lexer [] [] = Some x" by blast
  with Inr show ?thesis
    by (simp add: parse_buffer_def del: parse.simps split: sum.splits prod.splits)
qed

lemma at_Some: "at tree c = Some v \<Longrightarrow> 0 \<le> c \<and> nat c < length tree \<and> v = tree ! nat c"
  by (auto simp: at_def split: if_splits)

lemma render_nodes_total:
  assumes wf: "\<forall>i < length tree. \<forall>c \<in> set (children_of (tree ! i)). 0 \<le> c \<and> c < int i"
  shows "(\<forall>variant out indent_size parent_id c.
            0 < n \<and> (\<forall>h \<in> set (children_of variant). h < int n - 1) \<longrightarrow>
            render_nodes n src variant tree out indent_size parent_id c \<noteq> None)
       \<and> (\<forall>children out indent_size self_id c.
            (\<forall>h \<in> set children. h < int n) \<longrightarrow>
            render_children n src children tree out indent_size self_id c \<noteq> None)"
proof (induction n)
  case 0
  have "render_children 0 src children tree out indent_size self_id c \<noteq> None"
    if "\<forall>h \<in> set children. h < int 0" for children out indent_size self_id c
    using that
  proof (induction children arbitrary: out c)
    case Nil
    then show ?case by simp
  next
    case (Cons h rest)
    then have "h < 0" by simp
    then have "at tree h = None" by (simp add: at_def)
    then show ?case by simp
  qed
  then show ?case by simp
next
  case (Suc n)
  then have ihc: "\<And>children out indent_size self_id c. \<forall>h \<in> set children. h < int n \<Longrightarrow>
      render_children n src children tree out indent_size self_id c \<noteq> None"
    by blast
  have nodes: "render_nodes (Suc n) src variant tree out indent_size parent_id c \<noteq> None"
    if b: "\<forall>h \<in> set (children_of variant). h < int (Suc n) - 1"
    for variant out indent_size parent_id c
  proof (cases variant)
    case (List op children)
    with b have "\<forall>h \<in> set children. h < int n" by simp
    note ihc [OF this]
    with List show ?thesis by (auto split: sum.splits prod.splits)
  next
    case (Identifer x)
    then show ?thesis by simp
  next
    case (String x)
    then show ?thesis by simp
  next
    case Empty
    then show ?thesis by simp
  qed
  have children: "render_children (Suc n) src children tree out indent_size self_id c \<noteq> None"
    if "\<forall>h \<in> set children. h < int (Suc n)" for children out indent_size self_id c
    using that
  proof (induction children arbitrary: out c)
    case Nil
    then show ?case by simp
  next
    case (Cons h rest)
    show ?case
    proof (cases "at tree h")
      case None
      then show ?thesis by simp
    next
      case (Some variant)
      from at_Some [OF Some] have h: "0 \<le> h" "nat h < length tree" "variant = tree ! nat h"
        by simp_all
      from Cons.prems have "h < int (Suc n)" by simp
      with wf h have "\<forall>k \<in> set (children_of variant). k < int (Suc n) - 1" by fastforce
      from nodes [OF this] obtain x where
        x: "render_nodes (Suc n) src variant tree out indent_size self_id c = Some x" by blast
      from Cons.prems have rest: "\<forall>k \<in> set rest. k < int (Suc n)" by simp
      show ?thesis
      proof (cases x)
        case (Inl err)
        with Some x show ?thesis by (simp del: render_nodes.simps)
      next
        case (Inr res)
        obtain out1 c1 where res: "res = (out1, c1)" by (cases res)
        show ?thesis
        proof (cases "incr c1")
          case (Inl err)
          with Some x Inr res show ?thesis by (simp del: render_nodes.simps)
        next
          case inc: (Inr c2)
          from Cons.IH [OF rest] Some x Inr res inc show ?thesis
            by (simp del: render_nodes.simps)
        qed
      qed
    qed
  qed
  from nodes children show ?case by blast
qed

lemma render_roots_total:
  assumes wf: "\<forall>i < length tree. \<forall>c \<in> set (children_of (tree ! i)). 0 \<le> c \<and> c < int i"
    and roots: "\<forall>r \<in> set roots. r < int (length tree)"
  shows "render_roots (length tree) src roots tree out c graph_id indent_size \<noteq> None"
  using roots
proof (induction roots arbitrary: out c graph_id)
  case Nil
  then show ?case by simp
next
  case (Cons r roots)
  show ?case
  proof (cases "at tree r")
    case None
    then show ?thesis by simp
  next
    case (Some variant)
    from at_Some [OF Some] have r: "0 \<le> r" "nat r < length tree" "variant = tree ! nat r"
      by simp_all
    with wf have "\<forall>k \<in> set (children_of variant). k < int (length tree) - 1" by fastforce
    with render_nodes_total [OF wf, of "length tree" src] r(2)
    have n: "render_nodes (length tree) src variant tree o1 i1 p1 c1 \<noteq> None" for o1 i1 p1 c1
      by auto
    from Cons.prems have rest: "\<forall>k \<in> set roots. k < int (length tree)" by simp
    note ih = Cons.IH [OF rest]
    obtain x where x: "render_nodes (length tree) src variant tree
        (out @ [Open (indent_size + 1) (''subgraph cluster'' @ to_string graph_id)])
        (indent_size + 1 + 1) c c = Some x"
      using n by blast
    show ?thesis
    proof (cases "render_cluster (length tree) src variant tree out c
        (''subgraph cluster'' @ to_string graph_id) (indent_size + 1)")
      case None
      with x show ?thesis
        by (auto simp: render_cluster_def split: sum.splits prod.splits)
    next
      case cl: (Some y)
      with Some ih show ?thesis
        by (auto split: sum.splits prod.splits)
    qed
  qed
qed

lemma render_returns_after_parse:
  assumes "parse_buffer src = Some (Inr (roots, tree))"
  shows "render_stmts src roots tree \<noteq> None \<and> render src roots tree \<noteq> None"
proof -
  from assms obtain lexer where l: "new_Lexer src = Inr lexer"
    by (cases "new_Lexer src") (simp_all add: parse_buffer_def)
  with assms obtain lexer' where
    "parse (length src + 2) src lexer [] [] = Some (Inr (roots, lexer', tree))"
    by (simp add: parse_buffer_def split: sum.splits option.splits prod.splits)
  from parse_block [OF this] have ok: "block_ok 0 tree roots" by simp
  then have wf: "\<forall>i < length tree. \<forall>c \<in> set (children_of (tree ! i)). 0 \<le> c \<and> c < int i"
    and s: "set (references tree @ roots) = {0 ..< int (length tree)}"
    by (simp_all add: block_ok_def)
  from s have "\<forall>r \<in> set roots. r < int (length tree)" by auto
  from render_roots_total [OF wf this] obtain x where
    "render_roots (length tree) src roots tree [Open 0 ''digraph''] 0 0 0 = Some x" by blast
  then show ?thesis
    by (auto simp: render_stmts_def render_def split: sum.splits prod.splits)
qed

lemma run_returns: "run contents \<noteq> None"
proof -
  let ?src = "c_str (read_file contents)"
  from parse_buffer_returns [of ?src] obtain x where x: "parse_buffer ?src = Some x" by blast
  show ?thesis
  proof (cases x)
    case (Inl err)
    with x show ?thesis by (simp add: run_def)
  next
    case (Inr res)
    obtain roots tree where res: "res = (roots, tree)" by (cases res)
    from render_returns_after_parse [of ?src roots tree] x Inr res show ?thesis
      by (simp add: run_def)
  qed
qed

end
